theory Spec2Isabelle
  imports Main
begin

section \<open>Values, paths and JSON text\<close>

text \<open>
  A node id is a string.  A path step is a field name or an array index.  A JavaScript
  value of a payload or of a node is a tree of scalars, arrays and plain objects; an object
  is the list of its own properties in enumeration order (for the keys that occur here, field
  and argument names, that is insertion order), so two objects that hold the same entries
  inserted in a different order are different lists.
\<close>

type_synonym NodeId = string

datatype PathPart = Key string | Idx nat

datatype JsValue =
    JUndefined
  | JNull
  | JBool bool
  | JNum int
  | JStr string
  | JArr "JsValue list"
  | JObj "(string \<times> JsValue) list"

text \<open>Decimal text of a number, as \<open>JSON.stringify\<close> and property names print integers.\<close>

definition digit_char :: "nat \<Rightarrow> char" where
  "digit_char d = char_of (48 + d)"

fun show_nat :: "nat \<Rightarrow> string" where
  "show_nat n = (if n < 10 then [digit_char n] else show_nat (n div 10) @ [digit_char (n mod 10)])"

declare show_nat.simps [simp del]

definition show_int :: "int \<Rightarrow> string" where
  "show_int i = (if i < 0 then CHR ''-'' # show_nat (nat (- i)) else show_nat (nat i))"

text \<open>
  \<open>JSON.stringify\<close> on the values above.  A string is quoted; the quote and the
  backslash are escaped with a backslash, the control characters below U+0020 are written
  as the short escapes of backspace, tab, line feed, form feed and carriage return, or else as
  a backslash, \<open>u00\<close> and two lower-case hexadecimal digits; every other character is
  kept.  A string is the list of its UTF-8 bytes.
  \<open>undefined\<close> has no JSON text (\<open>None\<close>): inside an array it prints as \<open>null\<close>,
  inside an object its property is left out.  Object properties are printed in the object's
  own enumeration order.  The numbers are integers: \<open>JNum n\<close> stands for the number
  \<open>n\<close> where JavaScript prints it with all its digits, which is below \<open>10^21\<close> in
  absolute value; numbers with a fraction or an exponent are not among the values.
\<close>

definition dquote :: char where
  "dquote = CHR 0x22"

definition backslash :: char where
  "backslash = CHR 0x5C"

definition hex_char :: "nat \<Rightarrow> char" where
  "hex_char d = (if d < 10 then char_of (48 + d) else char_of (87 + d))"

definition json_escape_char :: "char \<Rightarrow> string" where
  "json_escape_char c =
     (if c = dquote \<or> c = backslash then [backslash, c]
      else if c = CHR 0x08 then [backslash, CHR ''b'']
      else if c = CHR 0x09 then [backslash, CHR ''t'']
      else if c = CHR 0x0A then [backslash, CHR ''n'']
      else if c = CHR 0x0C then [backslash, CHR ''f'']
      else if c = CHR 0x0D then [backslash, CHR ''r'']
      else if (of_char c :: nat) < 32
        then [backslash, CHR ''u'', CHR ''0'', CHR ''0'',
              hex_char ((of_char c :: nat) div 16), hex_char ((of_char c :: nat) mod 16)]
      else [c])"

fun json_escape :: "string \<Rightarrow> string" where
  "json_escape [] = []"
| "json_escape (c # cs) = json_escape_char c @ json_escape cs"

definition json_quote :: "string \<Rightarrow> string" where
  "json_quote s = dquote # json_escape s @ [dquote]"

fun join_comma :: "string list \<Rightarrow> string" where
  "join_comma [] = []"
| "join_comma [s] = s"
| "join_comma (s # t # ss) = s @ CHR '','' # join_comma (t # ss)"

fun stringify :: "JsValue \<Rightarrow> string option"
  and stringify_elems :: "JsValue list \<Rightarrow> string list"
  and stringify_props :: "(string \<times> JsValue) list \<Rightarrow> string list"
  and stringify_prop :: "string \<times> JsValue \<Rightarrow> string list" where
  "stringify JUndefined = None"
| "stringify JNull = Some ''null''"
| "stringify (JBool b) = Some (if b then ''true'' else ''false'')"
| "stringify (JNum n) = Some (show_int n)"
| "stringify (JStr s) = Some (json_quote s)"
| "stringify (JArr xs) = Some (CHR ''['' # join_comma (stringify_elems xs) @ '']'')"
| "stringify (JObj kvs) = Some (CHR ''{'' # join_comma (stringify_props kvs) @ ''}'')"
| "stringify_elems [] = []"
| "stringify_elems (x # xs) =
     (case stringify x of None \<Rightarrow> ''null'' | Some s \<Rightarrow> s) # stringify_elems xs"
| "stringify_props [] = []"
| "stringify_props (kv # kvs) = stringify_prop kv @ stringify_props kvs"
| "stringify_prop (k, v) =
     (case stringify v of None \<Rightarrow> [] | Some s \<Rightarrow> [json_quote k @ CHR '':'' # s])"

text \<open>A template literal prints \<open>undefined\<close> for a value without JSON text.\<close>

definition template_text :: "string option \<Rightarrow> string" where
  "template_text t = (case t of None \<Rightarrow> ''undefined'' | Some s \<Rightarrow> s)"

fun path_value :: "PathPart \<Rightarrow> JsValue" where
  "path_value (Key k) = JStr k"
| "path_value (Idx i) = JNum (int i)"

text \<open>The separator U+2756, as its three UTF-8 bytes.\<close>

definition separator :: string where
  "separator = [CHR 0xE2, CHR 0x9D, CHR 0x96]"

text \<open>
  \<open>nodeIdForParameterizedValue(containerId, path, args)\<close>: the container id, the JSON of
  the path and the JSON of the arguments, joined by the separator.
\<close>

definition nodeIdForParameterizedValue :: "NodeId \<Rightarrow> PathPart list \<Rightarrow> JsValue \<Rightarrow> NodeId" where
  "nodeIdForParameterizedValue containerId path args =
     containerId @ separator @ template_text (stringify (JArr (map path_value path)))
       @ separator @ template_text (stringify args)"

section \<open>JavaScript helpers on values\<close>

text \<open>Truthiness of a value and of an optional id (the empty string is falsy).\<close>

fun truthy :: "JsValue \<Rightarrow> bool" where
  "truthy JUndefined = False"
| "truthy JNull = False"
| "truthy (JBool b) = b"
| "truthy (JNum n) = (n \<noteq> 0)"
| "truthy (JStr s) = (s \<noteq> [])"
| "truthy (JArr xs) = True"
| "truthy (JObj kvs) = True"

fun id_truthy :: "NodeId option \<Rightarrow> bool" where
  "id_truthy None = False"
| "id_truthy (Some i) = (i \<noteq> [])"

text \<open>
  Modelled from the spec: \<open>isObject\<close> and \<open>isScalar\<close> of \<open>util\<close>, which are not among
  the sources.  The spec speaks of an entity reference as a mapping with an id and of a value
  tree as made of scalars, arrays and plain mappings: \<open>isObject\<close> holds of mappings,
  \<open>isScalar\<close> of everything that is neither a mapping nor an array.
\<close>

fun isObject :: "JsValue \<Rightarrow> bool" where
  "isObject (JObj kvs) = True"
| "isObject v = False"

fun isArray :: "JsValue \<Rightarrow> bool" where
  "isArray (JArr xs) = True"
| "isArray v = False"

fun isScalar :: "JsValue \<Rightarrow> bool" where
  "isScalar (JArr xs) = False"
| "isScalar (JObj kvs) = False"
| "isScalar v = True"

text \<open>
  Property reads \<open>v[k]\<close> and \<open>v[i]\<close>: a missing property, and any property of a scalar,
  reads as \<open>undefined\<close>; an object read at a number is read at the number's decimal name.
\<close>

fun get_field :: "JsValue \<Rightarrow> string \<Rightarrow> JsValue" where
  "get_field (JObj kvs) k = (case map_of kvs k of None \<Rightarrow> JUndefined | Some v \<Rightarrow> v)"
| "get_field v k = JUndefined"

fun get_index :: "JsValue \<Rightarrow> nat \<Rightarrow> JsValue" where
  "get_index (JArr xs) i = (if i < length xs then xs ! i else JUndefined)"
| "get_index (JObj kvs) i = (case map_of kvs (show_nat i) of None \<Rightarrow> JUndefined | Some v \<Rightarrow> v)"
| "get_index v i = JUndefined"

text \<open>\<open>v.length\<close>, where it is a number.\<close>

fun js_length :: "JsValue \<Rightarrow> int option" where
  "js_length (JArr xs) = Some (int (length xs))"
| "js_length (JStr s) = Some (int (length s))"
| "js_length (JObj kvs) = (case map_of kvs ''length'' of Some (JNum n) \<Rightarrow> Some n | _ \<Rightarrow> None)"
| "js_length v = None"

text \<open>Assignment \<open>o[k] = v\<close> on the property list of an object, and \<open>a[i] = v\<close> on an
  array: an index past the end leaves holes, which read as \<open>undefined\<close>.\<close>

fun obj_set :: "(string \<times> JsValue) list \<Rightarrow> string \<Rightarrow> JsValue \<Rightarrow> (string \<times> JsValue) list" where
  "obj_set [] k v = [(k, v)]"
| "obj_set ((k', v') # kvs) k v = (if k' = k then (k, v) # kvs else (k', v') # obj_set kvs k v)"

definition arr_set :: "JsValue list \<Rightarrow> nat \<Rightarrow> JsValue \<Rightarrow> JsValue list" where
  "arr_set xs i v =
     (if i < length xs then xs[i := v] else xs @ replicate (i - length xs) JUndefined @ [v])"

text \<open>
  The object spread \<open>{ ...v }\<close>: a new plain object with the own enumerable properties of
  \<open>v\<close>.  An array contributes its elements under their index names, a string its characters,
  any other scalar nothing.
\<close>

fun index_props :: "nat \<Rightarrow> JsValue list \<Rightarrow> (string \<times> JsValue) list" where
  "index_props i [] = []"
| "index_props i (x # xs) = (show_nat i, x) # index_props (Suc i) xs"

fun spread :: "JsValue \<Rightarrow> JsValue" where
  "spread (JObj kvs) = JObj kvs"
| "spread (JArr xs) = JObj (index_props 0 xs)"
| "spread (JStr s) = JObj (index_props 0 (map (\<lambda>c. JStr [c]) s))"
| "spread v = JObj []"

text \<open>
  Modelled from the spec: \<open>lazyImmutableDeepSet(target, original, path, value)\<close> of
  \<open>util\<close>, the copy-on-write path setter, which is not among the sources.  The spec gives
  its result: the current tree with \<open>path\<close> reassigned, every subtree off the path kept,
  missing containers created to match the step (a number makes an array, a name a mapping),
  \<open>undefined\<close> past the end of an array left as holes.  By the spec the original (the
  parent's tree) only decides which containers on the path are cloned before the write and
  which are written in place, and the returned tree equals the current tree with the path
  reassigned: the result below is that tree and does not depend on the original.  Which
  object is written is not part of a tree, so a write in place to an object that another
  value shares is not modelled.
\<close>

fun lazyImmutableDeepSet :: "JsValue \<Rightarrow> JsValue \<Rightarrow> PathPart list \<Rightarrow> JsValue \<Rightarrow> JsValue" where
  "lazyImmutableDeepSet target original [] v = v"
| "lazyImmutableDeepSet target original (Key k # rest) v =
     (let child = lazyImmutableDeepSet (get_field target k) (get_field original k) rest v
      in case target of
           JObj kvs \<Rightarrow> JObj (obj_set kvs k child)
         | _ \<Rightarrow> JObj [(k, child)])"
| "lazyImmutableDeepSet target original (Idx i # rest) v =
     (let child = lazyImmutableDeepSet (get_index target i) (get_index original i) rest v
      in case target of
           JArr xs \<Rightarrow> JArr (arr_set xs i child)
         | JObj kvs \<Rightarrow> JObj (obj_set kvs (show_nat i) child)
         | _ \<Rightarrow> JArr (arr_set [] i child))"

section \<open>Node records and their references\<close>

text \<open>
  A reference \<open>{ id, path }\<close> is a pair; \<open>None\<close> is the \<open>undefined\<close> path of a
  parameterized edge.  A node record holds the value and the two reference arrays, each of
  which may be \<open>undefined\<close>.
\<close>

type_synonym NodeReference = "NodeId \<times> PathPart list option"

record NodeSnapshot =
  node :: JsValue
  inbound :: "NodeReference list option"
  outbound :: "NodeReference list option"

datatype ReferenceDirection = Inbound | Outbound

fun references :: "ReferenceDirection \<Rightarrow> NodeSnapshot \<Rightarrow> NodeReference list option" where
  "references Inbound s = inbound s"
| "references Outbound s = outbound s"

fun set_references :: "ReferenceDirection \<Rightarrow> NodeReference list option \<Rightarrow> NodeSnapshot \<Rightarrow> NodeSnapshot" where
  "set_references Inbound r s = s\<lparr>inbound := r\<rparr>"
| "set_references Outbound r s = s\<lparr>outbound := r\<rparr>"

text \<open>
  Modelled from the spec: \<open>addNodeReference\<close>, \<open>hasNodeReference\<close> and
  \<open>removeNodeReference\<close> of \<open>util\<close>, which are not among the sources.  They work on the
  record they are given.  Adding appends \<open>{ id, path }\<close> to the array of the direction,
  creating the array when there is none (the arrays are multisets: nothing is deduplicated).
  Removing takes one occurrence of \<open>{ id, path }\<close> out, leaves the array alone when there is
  none, and answers whether the array is empty afterwards; an emptied array is reset to
  \<open>undefined\<close>, which is what the editor's test \<open>!prevTarget.inbound\<close> reads.
\<close>

definition addNodeReference :: "ReferenceDirection \<Rightarrow> NodeId \<Rightarrow> PathPart list option \<Rightarrow> NodeSnapshot \<Rightarrow> NodeSnapshot" where
  "addNodeReference direction i path snapshot =
     set_references direction
       (Some ((case references direction snapshot of None \<Rightarrow> [] | Some refs \<Rightarrow> refs) @ [(i, path)]))
       snapshot"

definition hasNodeReference :: "NodeSnapshot \<Rightarrow> ReferenceDirection \<Rightarrow> NodeId \<Rightarrow> PathPart list option \<Rightarrow> bool" where
  "hasNodeReference snapshot direction i path =
     (case references direction snapshot of None \<Rightarrow> False | Some refs \<Rightarrow> (i, path) \<in> set refs)"

definition removeNodeReference :: "ReferenceDirection \<Rightarrow> NodeId \<Rightarrow> PathPart list option \<Rightarrow> NodeSnapshot \<Rightarrow> NodeSnapshot" where
  "removeNodeReference direction i path snapshot =
     (case references direction snapshot of
        None \<Rightarrow> snapshot
      | Some refs \<Rightarrow>
          (let refs' = remove1 (i, path) refs
           in set_references direction (if refs' = [] then None else Some refs') snapshot))"

definition removeNodeReference_result :: "ReferenceDirection \<Rightarrow> NodeId \<Rightarrow> PathPart list option \<Rightarrow> NodeSnapshot \<Rightarrow> bool" where
  "removeNodeReference_result direction i path snapshot =
     (case references direction snapshot of
        None \<Rightarrow> True
      | Some refs \<Rightarrow> remove1 (i, path) refs = [])"

section \<open>The editor\<close>

text \<open>
  Node records are objects: the parent snapshot and the editor's table of new nodes hold
  references to them, and the editor writes to records in place.  The store maps an address
  to the record that lives there; \<open>fresh\<close> is the next unused address, so \<open>new\<close> takes it.
  A snapshot maps node ids to addresses.  In the table of new nodes a key may be present
  with the value \<open>undefined\<close> (\<open>Some None\<close>): the node was deleted in this transaction.
  The sets of ids are JavaScript \<open>Set\<close>s: lists without repetition, in insertion order.
\<close>

text \<open>
  For evaluation an updated function is kept as it is and read where it is applied, so that
  a store holds the records themselves.
\<close>

declare fun_upd_apply [code]

type_synonym addr = nat

type_synonym GraphSnapshot = "NodeId \<Rightarrow> addr option"

record Configuration =
  entityIdForNode :: "JsValue \<Rightarrow> NodeId option"

record SnapshotEditor =
  store :: "addr \<Rightarrow> NodeSnapshot"
  fresh :: addr
  config :: Configuration
  parent :: GraphSnapshot
  newNodes :: "NodeId \<Rightarrow> addr option option"
  editedNodeIds :: "NodeId list"
  rebuiltNodeIds :: "NodeId list"

definition set_add :: "'a \<Rightarrow> 'a list \<Rightarrow> 'a list" where
  "set_add x xs = (if x \<in> set xs then xs else xs @ [x])"

definition set_delete :: "'a \<Rightarrow> 'a list \<Rightarrow> 'a list" where
  "set_delete x xs = removeAll x xs"

definition addToSet :: "'a list \<Rightarrow> 'a list \<Rightarrow> 'a list" where
  "addToSet xs items = fold set_add items xs"

text \<open>The editor over a parent snapshot, as the constructor leaves it.\<close>

definition new_editor :: "Configuration \<Rightarrow> (addr \<Rightarrow> NodeSnapshot) \<Rightarrow> addr \<Rightarrow> GraphSnapshot \<Rightarrow> SnapshotEditor" where
  "new_editor cfg st fr par =
     \<lparr>store = st, fresh = fr, config = cfg, parent = par, newNodes = (\<lambda>i. None),
      editedNodeIds = [], rebuiltNodeIds = []\<rparr>"

text \<open>\<open>getSnapshot\<close>: the latest record of a node, and \<open>get\<close>: its value.\<close>

definition getSnapshot :: "SnapshotEditor \<Rightarrow> NodeId \<Rightarrow> addr option" where
  "getSnapshot ed i = (case newNodes ed i of Some current \<Rightarrow> current | None \<Rightarrow> parent ed i)"

definition get_value :: "SnapshotEditor \<Rightarrow> NodeId \<Rightarrow> JsValue" where
  "get_value ed i = (case getSnapshot ed i of Some a \<Rightarrow> node (store ed a) | None \<Rightarrow> JUndefined)"

text \<open>\<open>new NodeSnapshot(node, inbound, outbound)\<close>, stored under \<open>id\<close> in the new nodes.\<close>

definition allocate :: "NodeId \<Rightarrow> NodeSnapshot \<Rightarrow> SnapshotEditor \<Rightarrow> addr \<times> SnapshotEditor" where
  "allocate i r ed =
     (fresh ed,
      ed\<lparr>store := (store ed)(fresh ed := r), fresh := Suc (fresh ed),
         newNodes := (newNodes ed)(i := Some (Some (fresh ed)))\<rparr>)"

text \<open>
  \<open>_ensureNewSnapshot(id)\<close>: the staged record when there is one.  Otherwise a new
  record is stored under the id and returned: a record with nothing in it when the node was
  deleted in this transaction, else a copy of the parent's record (a spread of its value,
  copies of its arrays), or an empty object when the parent has none.
\<close>

definition newNodeSnapshot :: "SnapshotEditor \<Rightarrow> NodeId \<Rightarrow> NodeSnapshot" where
  "newNodeSnapshot ed i =
     (case newNodes ed i of
        Some current \<Rightarrow> \<lparr>node = JUndefined, inbound = None, outbound = None\<rparr>
      | None \<Rightarrow>
          (case parent ed i of
             Some p \<Rightarrow> \<lparr>node = spread (node (store ed p)), inbound = inbound (store ed p),
                         outbound = outbound (store ed p)\<rparr>
           | None \<Rightarrow> \<lparr>node = JObj [], inbound = None, outbound = None\<rparr>))"

definition ensureNewSnapshot :: "SnapshotEditor \<Rightarrow> NodeId \<Rightarrow> addr \<times> SnapshotEditor" where
  "ensureNewSnapshot ed i =
     (case newNodes ed i of
        Some (Some current) \<Rightarrow> (current, ed)
      | _ \<Rightarrow> allocate i (newNodeSnapshot ed i) ed)"

definition modify :: "addr \<Rightarrow> (NodeSnapshot \<Rightarrow> NodeSnapshot) \<Rightarrow> SnapshotEditor \<Rightarrow> SnapshotEditor" where
  "modify a f ed = ed\<lparr>store := (store ed)(a := f (store ed a))\<rparr>"

text \<open>
  \<open>_setValue(id, path, newValue, isEdit)\<close>: the id is noted as edited when \<open>isEdit\<close>
  is set, the record is staged, and its value becomes what the path setter returns for the
  staged value, the value of the parent's record, the path and the new value.  The new value
  is stored as a tree.  In the source it is a reference: when it is the value object of
  another record, the holder's value and that record share the object from then on, and a
  write in place through one of them shows in the other.  The trees do not show such
  writes; the statements below that depend on this say so.
\<close>

definition setValue :: "SnapshotEditor \<Rightarrow> NodeId \<Rightarrow> PathPart list \<Rightarrow> JsValue \<Rightarrow> bool \<Rightarrow> SnapshotEditor" where
  "setValue ed i path newValue isEdit =
     (let ed1 = (if isEdit then ed\<lparr>editedNodeIds := set_add i (editedNodeIds ed)\<rparr> else ed);
          parentValue = (case parent ed1 i of Some p \<Rightarrow> node (store ed1 p) | None \<Rightarrow> JUndefined);
          (current, ed2) = ensureNewSnapshot ed1 i
      in modify current
           (\<lambda>s. s\<lparr>node := lazyImmutableDeepSet (node s) parentValue path newValue\<rparr>) ed2)"

section \<open>Queries, edge maps and the payload walk\<close>

text \<open>
  Modelled from the spec: the edge map that \<open>parameterizedEdgesForOperation\<close> extracts
  from a query document, \<open>expandEdgeArguments\<close> and \<open>walkPayload\<close> of \<open>util\<close>, which
  are not among the sources.  The edge map is a tree that mirrors the selection set: a
  mapping from field names to subtrees, or a parameterized edge with its static arguments,
  each a literal or a reference to a variable.  A query is its root id, its document (here:
  the edge map of the document, if it has parameterized fields) and its variables.
\<close>

datatype EdgeArgument = Literal JsValue | VariableArgument string

datatype EdgeMap =
    EdgeMap "(string \<times> EdgeMap) list"
  | ParameterizedEdge "(string \<times> EdgeArgument) list"

record Query =
  rootId :: NodeId
  document :: "EdgeMap option"
  variables :: "(string \<times> JsValue) list"

definition parameterizedEdgesForOperation :: "EdgeMap option \<Rightarrow> EdgeMap option" where
  "parameterizedEdgesForOperation doc = doc"

text \<open>The arguments of an edge with the variables swapped in, in the order of the edge's
  arguments; a variable without a value becomes \<open>null\<close>.\<close>

fun expandArgument :: "(string \<times> JsValue) list \<Rightarrow> EdgeArgument \<Rightarrow> JsValue" where
  "expandArgument vars (Literal v) = v"
| "expandArgument vars (VariableArgument x) = (case map_of vars x of None \<Rightarrow> JNull | Some v \<Rightarrow> v)"

definition expandEdgeArguments :: "(string \<times> EdgeArgument) list \<Rightarrow> (string \<times> JsValue) list \<Rightarrow> JsValue" where
  "expandEdgeArguments edge vars = JObj (map (\<lambda>(k, a). (k, expandArgument vars a)) edge)"

fun edge_here :: "EdgeMap option \<Rightarrow> (string \<times> EdgeArgument) list option" where
  "edge_here (Some (ParameterizedEdge args)) = Some args"
| "edge_here em = None"

fun edge_child :: "EdgeMap option \<Rightarrow> string \<Rightarrow> EdgeMap option" where
  "edge_child (Some (EdgeMap m)) k = map_of m k"
| "edge_child em k = None"

text \<open>
  The walk descends payload, node value and edge map together, depth first, in the order of
  the payload's elements and properties.  At each position below the root, and at the root
  when \<open>visitRoot\<close> is set (the flag \<open>visit\<close> of a position), it calls the visitor with the path, the payload value, the node
  value and the parameterized edge of the position, if it is one; the visitor answers
  whether to skip the children.  The elements of an array share the array's edge map.
  The visitor acts on the state \<open>'s\<close> that the walk threads through.
\<close>

type_synonym 's PayloadVisitor =
  "PathPart list \<Rightarrow> JsValue \<Rightarrow> JsValue \<Rightarrow> (string \<times> EdgeArgument) list option \<Rightarrow> 's \<Rightarrow> bool \<times> 's"

function (sequential) walk_position :: "'s PayloadVisitor \<Rightarrow> PathPart list \<Rightarrow> JsValue \<Rightarrow> JsValue \<Rightarrow> EdgeMap option \<Rightarrow> bool \<Rightarrow> 's \<Rightarrow> 's"
  and walk_elements :: "'s PayloadVisitor \<Rightarrow> PathPart list \<Rightarrow> nat \<Rightarrow> JsValue list \<Rightarrow> JsValue \<Rightarrow> EdgeMap option \<Rightarrow> 's \<Rightarrow> 's"
  and walk_properties :: "'s PayloadVisitor \<Rightarrow> PathPart list \<Rightarrow> (string \<times> JsValue) list \<Rightarrow> JsValue \<Rightarrow> EdgeMap option \<Rightarrow> 's \<Rightarrow> 's"
  where
  "walk_position visitor path payload nodeValue edgeMap visit st =
     (case (if visit then visitor path payload nodeValue (edge_here edgeMap) st else (False, st)) of
        (skipChildren, st') \<Rightarrow>
          if skipChildren then st'
          else (case payload of
                  JArr xs \<Rightarrow> walk_elements visitor path 0 xs nodeValue edgeMap st'
                | JObj kvs \<Rightarrow> walk_properties visitor path kvs nodeValue edgeMap st'
                | _ \<Rightarrow> st'))"
| "walk_elements visitor path i [] nodeValue edgeMap st = st"
| "walk_elements visitor path i (x # xs) nodeValue edgeMap st =
     walk_elements visitor path (Suc i) xs nodeValue edgeMap
       (walk_position visitor (path @ [Idx i]) x (get_index nodeValue i) edgeMap True st)"
| "walk_properties visitor path [] nodeValue edgeMap st = st"
| "walk_properties visitor path ((k, v) # kvs) nodeValue edgeMap st =
     walk_properties visitor path kvs nodeValue edgeMap
       (walk_position visitor (path @ [Key k]) v (get_field nodeValue k) (edge_child edgeMap k) True st)"
  by pat_completeness auto

termination
  by (relation "measure (\<lambda>x. case x of
        Inl (visitor, path, payload, rest) \<Rightarrow> 2 * size payload + 1
      | Inr (Inl (visitor, path, i, xs, rest)) \<Rightarrow> 2 * size_list size xs
      | Inr (Inr (visitor, path, kvs, rest)) \<Rightarrow> 2 * size_list (size_prod (\<lambda>_. 0) size) kvs)") auto

declare walk_position.simps [simp del]

definition walkPayload :: "JsValue \<Rightarrow> JsValue \<Rightarrow> EdgeMap option \<Rightarrow> bool \<Rightarrow> 's PayloadVisitor \<Rightarrow> 's \<Rightarrow> 's" where
  "walkPayload payload nodeValue edgeMap visitRoot visitor st =
     walk_position visitor [] payload nodeValue edgeMap visitRoot st"

section \<open>Phase 1: merging values and collecting reference edits\<close>

text \<open>
  An item of the merge queue is \<open>(containerId, containerPayload, visitRoot)\<close>; a reference
  edit is \<open>(containerId, path, prevNodeId, nextNodeId)\<close>.  The arrays that the source uses
  as stacks (\<open>push\<close>, \<open>pop\<close>) are lists with the top of the stack at the head.  The visitor
  of \<open>_mergePayloadValues\<close> acts on the editor, the queue and the edits collected so far.
\<close>

type_synonym MergeQueueItem = "NodeId \<times> JsValue \<times> bool"

type_synonym ReferenceEdit = "NodeId \<times> PathPart list \<times> NodeId option \<times> NodeId option"

type_synonym MergeState = "SnapshotEditor \<times> MergeQueueItem list \<times> ReferenceEdit list"

definition ensureParameterizedEdge :: "SnapshotEditor \<Rightarrow> NodeId \<Rightarrow> NodeId \<Rightarrow> SnapshotEditor" where
  "ensureParameterizedEdge ed containerId edgeId =
     (case ensureNewSnapshot ed containerId of
        (containerSnapshot, ed1) \<Rightarrow>
          if \<not> hasNodeReference (store ed1 containerSnapshot) Outbound edgeId None then
            (case ensureNewSnapshot (modify containerSnapshot (addNodeReference Outbound edgeId None) ed1) edgeId of
               (edgeSnapshot, ed2) \<Rightarrow> modify edgeSnapshot (addNodeReference Inbound containerId None) ed2)
          else ed1)"

definition mergeVisitor :: "Query \<Rightarrow> NodeId \<Rightarrow> MergeState PayloadVisitor" where
  "mergeVisitor query containerId path payloadValue nodeValue parameterizedEdge st =
     (case st of (ed, queue, referenceEdits) \<Rightarrow>
       (let nextNodeId = (if isObject payloadValue then entityIdForNode (config ed) payloadValue else None);
            prevNodeId = (if isObject nodeValue then entityIdForNode (config ed) nodeValue else None)
        in case parameterizedEdge of
             Some edge \<Rightarrow>
               (let edgeArguments = expandEdgeArguments edge (variables query);
                    edgeId = nodeIdForParameterizedValue containerId path edgeArguments
                in (True, (ensureParameterizedEdge ed containerId edgeId,
                           (edgeId, payloadValue, True) # queue, referenceEdits)))
           | None \<Rightarrow>
               if id_truthy prevNodeId \<or> id_truthy nextNodeId then
                 (let nextNodeId' = (if \<not> id_truthy nextNodeId \<and> truthy payloadValue then prevNodeId else nextNodeId);
                      referenceEdits' = (if prevNodeId \<noteq> nextNodeId'
                                         then referenceEdits @ [(containerId, path, prevNodeId, nextNodeId')]
                                         else referenceEdits);
                      queue' = (if id_truthy nextNodeId'
                                then (the nextNodeId', payloadValue, False) # queue else queue)
                  in (True, (ed, queue', referenceEdits')))
               else if isArray payloadValue then
                 (if truthy nodeValue \<and> js_length nodeValue = js_length payloadValue then (False, st)
                  else
                    (let newArray = (case nodeValue of
                                       JArr xs \<Rightarrow> JArr (take (nat (the (js_length payloadValue))) xs)
                                     | _ \<Rightarrow> JArr [])
                     in (False, (setValue ed containerId path newArray True, queue, referenceEdits))))
               else if isScalar payloadValue \<and> payloadValue \<noteq> nodeValue then
                 (False, (setValue ed containerId path payloadValue True, queue, referenceEdits))
               else (False, st)))"

text \<open>
  The loop of \<open>_mergePayloadValues\<close>: pop an item, read the container's latest value, walk
  the item's payload against it.  Every walk gets the edge map of the whole query.
\<close>

partial_function (option) mergeQueue :: "Query \<Rightarrow> MergeState \<Rightarrow> (ReferenceEdit list \<times> SnapshotEditor) option" where
  "mergeQueue query st =
     (case st of (ed, queue, referenceEdits) \<Rightarrow>
        (case queue of
           [] \<Rightarrow> Some (referenceEdits, ed)
         | (containerId, containerPayload, visitRoot) # rest \<Rightarrow>
             mergeQueue query
               (walkPayload containerPayload (get_value ed containerId)
                  (parameterizedEdgesForOperation (document query)) visitRoot
                  (mergeVisitor query containerId) (ed, rest, referenceEdits))))"

declare mergeQueue.simps [code]

definition mergePayloadValues :: "SnapshotEditor \<Rightarrow> Query \<Rightarrow> JsValue \<Rightarrow> (ReferenceEdit list \<times> SnapshotEditor) option" where
  "mergePayloadValues ed query fullPayload = mergeQueue query (ed, [(rootId query, fullPayload, False)], [])"

section \<open>Phase 2: applying the reference edits\<close>

text \<open>
  One turn of the loop of \<open>_mergeReferenceEdits\<close>, on the editor and the set of orphaned
  ids: write the target's value into the container, take the old edge out of both records
  and note the old target as orphaned when it has no inbound array left, then put the new
  edge into both records and take the new target off the orphans.
\<close>

definition removePrevReference :: "NodeId \<Rightarrow> PathPart list \<Rightarrow> addr \<Rightarrow> NodeId \<Rightarrow> SnapshotEditor \<times> NodeId list \<Rightarrow> SnapshotEditor \<times> NodeId list" where
  "removePrevReference containerId path container prevNodeId st =
     (case st of (ed, orphanedNodeIds) \<Rightarrow>
        (case ensureNewSnapshot (modify container (removeNodeReference Outbound prevNodeId (Some path)) ed) prevNodeId of
           (prevTarget, ed1) \<Rightarrow>
             (let ed2 = modify prevTarget (removeNodeReference Inbound containerId (Some path)) ed1
              in (ed2, if inbound (store ed2 prevTarget) = None
                       then set_add prevNodeId orphanedNodeIds else orphanedNodeIds))))"

definition addNextReference :: "NodeId \<Rightarrow> PathPart list \<Rightarrow> addr \<Rightarrow> NodeId \<Rightarrow> SnapshotEditor \<times> NodeId list \<Rightarrow> SnapshotEditor \<times> NodeId list" where
  "addNextReference containerId path container nextNodeId st =
     (case st of (ed, orphanedNodeIds) \<Rightarrow>
        (case ensureNewSnapshot (modify container (addNodeReference Outbound nextNodeId (Some path)) ed) nextNodeId of
           (nextTarget, ed1) \<Rightarrow>
             (modify nextTarget (addNodeReference Inbound containerId (Some path)) ed1,
              set_delete nextNodeId orphanedNodeIds)))"

definition mergeReferenceEdit :: "ReferenceEdit \<Rightarrow> SnapshotEditor \<times> NodeId list \<Rightarrow> SnapshotEditor \<times> NodeId list" where
  "mergeReferenceEdit edit st =
     (case edit of (containerId, path, prevNodeId, nextNodeId) \<Rightarrow>
      (case st of (ed, orphanedNodeIds) \<Rightarrow>
        (let target = (if id_truthy nextNodeId then get_value ed (the nextNodeId) else JNull)
         in case ensureNewSnapshot (setValue ed containerId path target True) containerId of
              (container, ed1) \<Rightarrow>
                (let st1 = (if id_truthy prevNodeId
                            then removePrevReference containerId path container (the prevNodeId) (ed1, orphanedNodeIds)
                            else (ed1, orphanedNodeIds))
                 in if id_truthy nextNodeId
                    then addNextReference containerId path container (the nextNodeId) st1
                    else st1))))"

definition mergeReferenceEdits :: "SnapshotEditor \<Rightarrow> ReferenceEdit list \<Rightarrow> SnapshotEditor \<times> NodeId list" where
  "mergeReferenceEdits ed referenceEdits = fold mergeReferenceEdit referenceEdits (ed, [])"

section \<open>Phase 3: rebuilding inbound references\<close>

text \<open>
  The body of the inner loop of \<open>_rebuildInboundReferences\<close> for one inbound reference
  \<open>{ id, path }\<close> of the record at \<open>snapshot\<close>: a reference without a path is passed over;
  otherwise the record's value, as it is now, is set into the holder at the path with
  \<open>isEdit = false\<close>, and the holder is queued unless it was rebuilt already.
\<close>

definition rebuildReference :: "addr \<Rightarrow> NodeReference \<Rightarrow> SnapshotEditor \<times> NodeId list \<Rightarrow> SnapshotEditor \<times> NodeId list" where
  "rebuildReference snapshot reference st =
     (case reference of (i, path) \<Rightarrow>
      (case st of (ed, queue) \<Rightarrow>
        (case path of
           None \<Rightarrow> st
         | Some p \<Rightarrow>
             (let ed1 = setValue ed i p (node (store ed snapshot)) False
              in if i \<in> set (rebuiltNodeIds ed1) then (ed1, queue)
                 else (ed1\<lparr>rebuiltNodeIds := set_add i (rebuiltNodeIds ed1)\<rparr>, i # queue)))))"

text \<open>One turn of the outer loop: pop a node id and go through its inbound references.\<close>

definition rebuildStep :: "NodeId \<Rightarrow> SnapshotEditor \<times> NodeId list \<Rightarrow> SnapshotEditor \<times> NodeId list" where
  "rebuildStep nodeId st =
     (case getSnapshot (fst st) nodeId of
        None \<Rightarrow> st
      | Some snapshot \<Rightarrow>
          (case inbound (store (fst st) snapshot) of
             None \<Rightarrow> st
           | Some refs \<Rightarrow> fold (rebuildReference snapshot) refs st))"

partial_function (option) rebuildQueue :: "SnapshotEditor \<times> NodeId list \<Rightarrow> SnapshotEditor option" where
  "rebuildQueue st =
     (case st of (ed, queue) \<Rightarrow>
        (case queue of
           [] \<Rightarrow> Some ed
         | nodeId # rest \<Rightarrow> rebuildQueue (rebuildStep nodeId (ed, rest))))"

declare rebuildQueue.simps [code]

definition rebuildInboundReferences :: "SnapshotEditor \<Rightarrow> SnapshotEditor option" where
  "rebuildInboundReferences ed =
     rebuildQueue (ed\<lparr>rebuiltNodeIds := addToSet (rebuiltNodeIds ed) (editedNodeIds ed)\<rparr>,
                   rev (editedNodeIds ed))"

text \<open>
  The ids that the loop pops, in the order in which it pops them: the same loop, read for
  its visits instead of its final state.
\<close>

partial_function (option) rebuildPops :: "SnapshotEditor \<times> NodeId list \<Rightarrow> NodeId list option" where
  "rebuildPops st =
     (case st of (ed, queue) \<Rightarrow>
        (case queue of
           [] \<Rightarrow> Some []
         | nodeId # rest \<Rightarrow>
             Option.bind (rebuildPops (rebuildStep nodeId (ed, rest))) (\<lambda>pops. Some (nodeId # pops))))"

declare rebuildPops.simps [code]

text \<open>The state in which \<open>_rebuildInboundReferences\<close> enters its loop.\<close>

definition rebuildStart :: "SnapshotEditor \<Rightarrow> SnapshotEditor \<times> NodeId list" where
  "rebuildStart ed =
     (ed\<lparr>rebuiltNodeIds := addToSet (rebuiltNodeIds ed) (editedNodeIds ed)\<rparr>, rev (editedNodeIds ed))"

section \<open>Phase 4: removing orphaned nodes\<close>

text \<open>
  The inner loop of \<open>_removeOrphanedNodes\<close> for one outbound reference \<open>{ id, path }\<close> of
  the node being removed: the inbound reference is taken out of the target's staged record,
  and the target is queued when that leaves it without inbound references.
\<close>

definition removeOrphanReference :: "NodeId \<Rightarrow> NodeReference \<Rightarrow> SnapshotEditor \<times> NodeId list \<Rightarrow> SnapshotEditor \<times> NodeId list" where
  "removeOrphanReference nodeId ref st =
     (case ref of (i, path) \<Rightarrow>
      (case st of (ed, queue) \<Rightarrow>
        (case ensureNewSnapshot ed i of
           (reference, ed1) \<Rightarrow>
             (modify reference (removeNodeReference Inbound nodeId path) ed1,
              if removeNodeReference_result Inbound nodeId path (store ed1 reference)
              then i # queue else queue))))"

definition removeOrphanStep :: "NodeId \<Rightarrow> SnapshotEditor \<times> NodeId list \<Rightarrow> SnapshotEditor \<times> NodeId list" where
  "removeOrphanStep nodeId st =
     (case st of (ed, queue) \<Rightarrow>
        (case getSnapshot ed nodeId of
           None \<Rightarrow> st
         | Some n \<Rightarrow>
             (let ed1 = ed\<lparr>newNodes := (newNodes ed)(nodeId := Some None),
                            editedNodeIds := set_add nodeId (editedNodeIds ed)\<rparr>
              in case outbound (store ed1 n) of
                   None \<Rightarrow> (ed1, queue)
                 | Some refs \<Rightarrow> fold (removeOrphanReference nodeId) refs (ed1, queue))))"

partial_function (option) removeOrphanQueue :: "SnapshotEditor \<times> NodeId list \<Rightarrow> SnapshotEditor option" where
  "removeOrphanQueue st =
     (case st of (ed, queue) \<Rightarrow>
        (case queue of
           [] \<Rightarrow> Some ed
         | nodeId # rest \<Rightarrow> removeOrphanQueue (removeOrphanStep nodeId (ed, rest))))"

declare removeOrphanQueue.simps [code]

definition removeOrphanedNodes :: "SnapshotEditor \<Rightarrow> NodeId list \<Rightarrow> SnapshotEditor option" where
  "removeOrphanedNodes ed nodeIds = removeOrphanQueue (ed, rev nodeIds)"

section \<open>Merging a payload and committing\<close>

definition mergePayload :: "SnapshotEditor \<Rightarrow> Query \<Rightarrow> JsValue \<Rightarrow> SnapshotEditor option" where
  "mergePayload ed query payload =
     (case mergePayloadValues ed query payload of
        None \<Rightarrow> None
      | Some (referenceEdits, ed1) \<Rightarrow>
          (case mergeReferenceEdits ed1 referenceEdits of
             (ed2, orphanedNodeIds) \<Rightarrow>
               (case rebuildInboundReferences ed2 of
                  None \<Rightarrow> None
                | Some ed3 \<Rightarrow> removeOrphanedNodes ed3 orphanedNodeIds)))"

text \<open>
  \<open>commit()\<close>: the parent's table with the new nodes laid over it and the deleted ones
  dropped, which is what \<open>getSnapshot\<close> reads, and the edited ids.
\<close>

record EditedSnapshot =
  snapshot :: GraphSnapshot
  edited :: "NodeId list"

definition commit :: "SnapshotEditor \<Rightarrow> EditedSnapshot" where
  "commit ed =
     \<lparr>snapshot = (\<lambda>i. case newNodes ed i of
                         None \<Rightarrow> parent ed i
                       | Some None \<Rightarrow> None
                       | Some (Some newSnapshot) \<Rightarrow> Some newSnapshot),
      edited = editedNodeIds ed\<rparr>"

text \<open>A sequence of merges on one editor.\<close>

fun mergePayloads :: "SnapshotEditor \<Rightarrow> (Query \<times> JsValue) list \<Rightarrow> SnapshotEditor option" where
  "mergePayloads ed [] = Some ed"
| "mergePayloads ed ((query, payload) # rest) =
     (case mergePayload ed query payload of
        None \<Rightarrow> None
      | Some ed' \<Rightarrow> mergePayloads ed' rest)"

section \<open>Views of the editor and of a committed snapshot\<close>

text \<open>
  The references of a node in one direction, as the editor sees them now: those of its
  latest record, none for a node that has no record or was deleted.  A snapshot with its
  store is read the same way.
\<close>

definition ref_list :: "NodeReference list option \<Rightarrow> NodeReference list" where
  "ref_list r = (case r of None \<Rightarrow> [] | Some refs \<Rightarrow> refs)"

definition refs_at :: "ReferenceDirection \<Rightarrow> (addr \<Rightarrow> NodeSnapshot) \<Rightarrow> GraphSnapshot \<Rightarrow> NodeId \<Rightarrow> NodeReference list" where
  "refs_at d st snap i =
     (case snap i of
        None \<Rightarrow> []
      | Some a \<Rightarrow> ref_list (references d (st a)))"

definition refs_of :: "ReferenceDirection \<Rightarrow> SnapshotEditor \<Rightarrow> NodeId \<Rightarrow> NodeReference list" where
  "refs_of d ed i = refs_at d (store ed) (getSnapshot ed) i"

text \<open>The record of a node in a snapshot.\<close>

definition record_of :: "(addr \<Rightarrow> NodeSnapshot) \<Rightarrow> GraphSnapshot \<Rightarrow> NodeId \<Rightarrow> NodeSnapshot option" where
  "record_of st snap i = map_option st (snap i)"

text \<open>
  Bidirectional symmetry: the edge from \<open>h\<close> to \<open>t\<close> at \<open>p\<close> occurs as often in the
  outbound references of \<open>h\<close> as in the inbound references of \<open>t\<close>.
\<close>

definition symmetric_at :: "(addr \<Rightarrow> NodeSnapshot) \<Rightarrow> GraphSnapshot \<Rightarrow> bool" where
  "symmetric_at st snap =
     (\<forall>h t p. count_list (refs_at Outbound st snap h) (t, p) = count_list (refs_at Inbound st snap t) (h, p))"

text \<open>Reachability from a set of roots along outbound references.\<close>

inductive reachable :: "(addr \<Rightarrow> NodeSnapshot) \<Rightarrow> GraphSnapshot \<Rightarrow> NodeId set \<Rightarrow> NodeId \<Rightarrow> bool"
  for st :: "addr \<Rightarrow> NodeSnapshot" and snap :: GraphSnapshot and roots :: "NodeId set" where
  reachable_root: "i \<in> roots \<Longrightarrow> reachable st snap roots i"
| reachable_step: "reachable st snap roots h \<Longrightarrow> (i, p) \<in> set (refs_at Outbound st snap h)
     \<Longrightarrow> reachable st snap roots i"

text \<open>
  A new editor over the snapshot that an editor commits, on the same store: the next
  transaction.
\<close>

definition reopen :: "SnapshotEditor \<Rightarrow> SnapshotEditor" where
  "reopen ed = new_editor (config ed) (store ed) (fresh ed) (snapshot (commit ed))"

section \<open>Well-formed editors\<close>

text \<open>
  An editor that was opened when the store was filled up to \<open>base\<close>: the records of the
  parent snapshot lie below \<open>base\<close>, the records staged in the new nodes were allocated
  since, each under one id only.
\<close>

definition editor_wf :: "addr \<Rightarrow> SnapshotEditor \<Rightarrow> bool" where
  "editor_wf base ed \<longleftrightarrow>
     base \<le> fresh ed
     \<and> (\<forall>i a. parent ed i = Some a \<longrightarrow> a < base)
     \<and> (\<forall>i a. newNodes ed i = Some (Some a) \<longrightarrow> base \<le> a \<and> a < fresh ed)
     \<and> (\<forall>i j a. newNodes ed i = Some (Some a) \<longrightarrow> newNodes ed j = Some (Some a) \<longrightarrow> i = j)"

text \<open>
  What every operation of an editor keeps of the state it started from: the editor stays
  well-formed, no record below \<open>base\<close> is written, the parent snapshot and the
  configuration are the same, and the new nodes stay finitely many.
\<close>

definition keeps :: "addr \<Rightarrow> SnapshotEditor \<Rightarrow> SnapshotEditor \<Rightarrow> bool" where
  "keeps base ed ed' \<longleftrightarrow>
     editor_wf base ed'
     \<and> (\<forall>a. a < base \<longrightarrow> store ed' a = store ed a)
     \<and> parent ed' = parent ed
     \<and> config ed' = config ed
     \<and> fresh ed \<le> fresh ed'
     \<and> (finite {i. newNodes ed i \<noteq> None} \<longrightarrow> finite {i. newNodes ed' i \<noteq> None})"

definition symmetric :: "SnapshotEditor \<Rightarrow> bool" where
  "symmetric ed = symmetric_at (store ed) (getSnapshot ed)"

text \<open>An operation extends a state when, on top of that, it keeps the references symmetric.\<close>

definition extends :: "addr \<Rightarrow> SnapshotEditor \<Rightarrow> SnapshotEditor \<Rightarrow> bool" where
  "extends base ed ed' \<longleftrightarrow> keeps base ed ed' \<and> (symmetric ed \<longrightarrow> symmetric ed')"

text \<open>The ids noted as orphaned, or queued for removal, have no inbound reference.\<close>

definition unreferenced :: "SnapshotEditor \<Rightarrow> NodeId list \<Rightarrow> bool" where
  "unreferenced ed ids \<longleftrightarrow> (\<forall>x \<in> set ids. refs_of Inbound ed x = [])"

text \<open>
  An operation republishes when it keeps the state as above, leaves every reference of every
  node as it is, and adds nothing to the edited ids.
\<close>

definition republishes :: "addr \<Rightarrow> SnapshotEditor \<Rightarrow> SnapshotEditor \<Rightarrow> bool" where
  "republishes base ed ed' \<longleftrightarrow>
     keeps base ed ed'
     \<and> (\<forall>d j. refs_of d ed' j = refs_of d ed j)
     \<and> editedNodeIds ed' = editedNodeIds ed"

text \<open>The ids that hold an inbound reference to some node.\<close>

definition holders :: "SnapshotEditor \<Rightarrow> NodeId set" where
  "holders ed = {h. \<exists>i p. (h, p) \<in> set (refs_of Inbound ed i)}"

text \<open>
  The editor over the parent snapshot without the record of one id, everything else being
  the same; an operation does not read the parent's record of the id when, on every editor
  that has the id among its new nodes (staged or deleted), it does the same to both editors
  and leaves the id among the new nodes.  The value that has \<open>v\<close> at the end of a path and
  nothing else has one container per step.
\<close>

definition without_parent_record :: "NodeId \<Rightarrow> SnapshotEditor \<Rightarrow> SnapshotEditor" where
  "without_parent_record i ed = ed\<lparr>parent := (parent ed)(i := None)\<rparr>"

definition unread :: "NodeId \<Rightarrow> (SnapshotEditor \<times> 'x \<Rightarrow> SnapshotEditor \<times> 'x) \<Rightarrow> bool" where
  "unread i f \<longleftrightarrow>
     (\<forall>ed x. newNodes ed i \<noteq> None \<longrightarrow>
        f (without_parent_record i ed, x) = apfst (without_parent_record i) (f (ed, x))
        \<and> newNodes (fst (f (ed, x))) i \<noteq> None)"

fun path_alone :: "PathPart list \<Rightarrow> JsValue \<Rightarrow> JsValue" where
  "path_alone [] v = v"
| "path_alone (Key k # rest) v = JObj [(k, path_alone rest v)]"
| "path_alone (Idx i # rest) v = JArr (replicate i JUndefined @ [path_alone rest v])"

section \<open>The scenarios of the write tests\<close>

text \<open>
  The configuration of the scenarios takes the entity id from the field \<open>id\<close>, printed as
  a string.  The empty snapshot has no node; the store it comes with holds nothing yet.
\<close>

definition testConfig :: Configuration where
  "testConfig =
     \<lparr>entityIdForNode = (\<lambda>v. case get_field v ''id'' of
                                 JNum n \<Rightarrow> Some (show_int n)
                               | JStr s \<Rightarrow> Some s
                               | _ \<Rightarrow> None)\<rparr>"

definition emptyStore :: "addr \<Rightarrow> NodeSnapshot" where
  "emptyStore = (\<lambda>a. \<lparr>node = JUndefined, inbound = None, outbound = None\<rparr>)"

definition emptySnapshot :: GraphSnapshot where
  "emptySnapshot = (\<lambda>i. None)"

definition emptyEditor :: SnapshotEditor where
  "emptyEditor = new_editor testConfig emptyStore 0 emptySnapshot"

definition QueryRootId :: NodeId where
  "QueryRootId = ''QueryRoot''"

text \<open>\<open>query getAFoo($id: ID!) { foo(id: $id, withExtra: true) { name extra } }\<close> with
  \<open>{ id: 1 }\<close>: the field \<open>foo\<close> of the root is parameterized.\<close>

definition parameterizedQuery :: Query where
  "parameterizedQuery =
     \<lparr>rootId = QueryRootId,
      document = Some (EdgeMap [(''foo'', ParameterizedEdge
                   [(''id'', VariableArgument ''id''), (''withExtra'', Literal (JBool True))])]),
      variables = [(''id'', JNum 1)]\<rparr>"

definition parameterizedId :: NodeId where
  "parameterizedId =
     nodeIdForParameterizedValue QueryRootId [Key ''foo'']
       (JObj [(''id'', JNum 1), (''withExtra'', JBool True)])"

text \<open>\<open>{ viewer { id name } }\<close>: no parameterized field.\<close>

definition viewerQuery :: Query where
  "viewerQuery = \<lparr>rootId = QueryRootId, document = None, variables = []\<rparr>"

definition fooPayload :: JsValue where
  "fooPayload = JObj [(''foo'', JObj [(''name'', JStr ''Foo''), (''extra'', JBool False)])]"

definition fooEntityPayload :: JsValue where
  "fooEntityPayload =
     JObj [(''foo'', JObj [(''id'', JNum 1), (''name'', JStr ''Foo''), (''extra'', JBool False)])]"

definition viewerPayload :: JsValue where
  "viewerPayload = JObj [(''viewer'', JObj [(''id'', JNum 1), (''name'', JStr ''Foo Bar'')])]"

text \<open>Two entities that reference each other, reached from the root through \<open>viewer\<close>;
  then the root lets go of \<open>viewer\<close>.\<close>

definition cyclePayload :: JsValue where
  "cyclePayload =
     JObj [(''viewer'', JObj [(''id'', JNum 1),
        (''friend'', JObj [(''id'', JNum 2), (''friend'', JObj [(''id'', JNum 1)])])])]"


text \<open>
  An entity \<open>H\<close> that holds the entity \<open>F\<close> inside the inline object at \<open>p\<close>, and an
  entity \<open>E\<close> beside it; then \<open>p\<close> of \<open>H\<close> becomes the entity \<open>E\<close> while \<open>F\<close>,
  now under \<open>f\<close> of the root, gets a new value.
\<close>

definition holderPayload :: JsValue where
  "holderPayload =
     JObj [(''h'', JObj [(''id'', JStr ''H''),
                         (''p'', JObj [(''q'', JObj [(''id'', JStr ''F''), (''v'', JNum 1)])])]),
           (''e'', JObj [(''id'', JStr ''E''), (''n'', JNum 1)])]"

definition movedPayload :: JsValue where
  "movedPayload =
     JObj [(''h'', JObj [(''id'', JStr ''H''), (''p'', JObj [(''id'', JStr ''E'')])]),
           (''f'', JObj [(''id'', JStr ''F''), (''v'', JNum 2)])]"

section \<open>Parameterized ids and key order\<close>

lemma map_of_same_keys:
  "map fst xs = map fst ys \<Longrightarrow> distinct (map fst xs) \<Longrightarrow> map_of xs = map_of ys \<Longrightarrow> xs = ys"
proof (induction xs arbitrary: ys)
  case Nil
  then show ?case by simp
next
  case (Cons x xs)
  then obtain y ys' where ys: "ys = y # ys'" by (cases ys) auto
  obtain k v where x: "x = (k, v)" by (cases x)
  obtain k' v' where y: "y = (k', v')" by (cases y)
  from Cons.prems(1) ys x y have k: "k' = k" and keys: "map fst xs = map fst ys'" by auto
  from Cons.prems(3) have eq: "map_of (x # xs) a = map_of ys a" for a by (rule fun_cong)
  from eq [of k] ys x y k have v: "v' = v" by simp
  from Cons.prems(2) x have nk: "k \<notin> fst ` set xs" and d: "distinct (map fst xs)" by auto
  from keys nk have nk': "k \<notin> fst ` set ys'" by (metis list.set_map)
  have "map_of xs = map_of ys'"
  proof (rule ext)
    fix a
    show "map_of xs a = map_of ys' a"
    proof (cases "a = k")
      case True
      from nk have "map_of xs k = None" by (simp only: map_of_eq_None_iff not_False_eq_True)
      moreover from nk' have "map_of ys' k = None" by (simp only: map_of_eq_None_iff not_False_eq_True)
      ultimately show ?thesis using True by simp
    next
      case False
      with eq [of a] ys x y k show ?thesis by simp
    qed
  qed
  with Cons.IH keys d have "xs = ys'" by blast
  with ys x y k v show ?case by simp
qed

text \<open>
  C5, as stated: two argument objects that are equal as key-value maps give the same id,
  whatever the order of their keys.  It fails: the id is built from
  \<open>JSON.stringify(args)\<close>, which prints the keys in the object's own order, and nothing
  sorts them.  The objects \<open>{a: 1, b: 2}\<close> and \<open>{b: 2, a: 1}\<close> are the same map and get
  different ids.
\<close>

theorem nodeId_key_order_counterexample:
  "distinct (map fst [(''a'', JNum 1), (''b'', JNum 2)])
   \<and> distinct (map fst [(''b'', JNum 2), (''a'', JNum 1)])
   \<and> map_of [(''a'', JNum 1), (''b'', JNum 2)] = map_of [(''b'', JNum 2), (''a'', JNum 1)]
   \<and> nodeIdForParameterizedValue ''QueryRoot'' [Key ''foo''] (JObj [(''a'', JNum 1), (''b'', JNum 2)])
     \<noteq> nodeIdForParameterizedValue ''QueryRoot'' [Key ''foo''] (JObj [(''b'', JNum 2), (''a'', JNum 1)])"
proof -
  have m: "map_of [(''a'', JNum 1), (''b'', JNum 2)] = map_of [(''b'', JNum 2), (''a'', JNum 1)]"
    by (rule ext) simp
  have n: "nodeIdForParameterizedValue ''QueryRoot'' [Key ''foo''] (JObj [(''a'', JNum 1), (''b'', JNum 2)])
     \<noteq> nodeIdForParameterizedValue ''QueryRoot'' [Key ''foo''] (JObj [(''b'', JNum 2), (''a'', JNum 1)])"
    by (simp add: nodeIdForParameterizedValue_def template_text_def json_quote_def
        json_escape_char_def dquote_def backslash_def)
  from m n show ?thesis by simp
qed

text \<open>
  C5, amended: the id is a function of the container id, the path and the argument object
  with its key order.  Two argument objects that are equal as key-value maps and list their
  keys in the same order (for instance both sorted) give the same id.
\<close>

theorem nodeId_same_key_order:
  assumes "map fst args1 = map fst args2"
    and "distinct (map fst args1)"
    and "map_of args1 = map_of args2"
  shows "nodeIdForParameterizedValue containerId path (JObj args1)
       = nodeIdForParameterizedValue containerId path (JObj args2)"
proof -
  from assms have "args1 = args2" by (rule map_of_same_keys)
  then show ?thesis by simp
qed

theorem nodeId_same_key_order_witness:
  "map fst [(''id'', JNum 1), (''withExtra'', JBool True)] = map fst [(''id'', JNum 1), (''withExtra'', JBool True)]
   \<and> distinct (map fst [(''id'', JNum 1), (''withExtra'', JBool True)])
   \<and> nodeIdForParameterizedValue ''QueryRoot'' [Key ''foo''] (JObj [(''id'', JNum 1), (''withExtra'', JBool True)])
     = nodeIdForParameterizedValue ''QueryRoot'' [Key ''foo''] (JObj [(''id'', JNum 1), (''withExtra'', JBool True)])"
  using nodeId_same_key_order [of "[(''id'', JNum 1), (''withExtra'', JBool True)]"
      "[(''id'', JNum 1), (''withExtra'', JBool True)]" "''QueryRoot''" "[Key ''foo'']"]
  by simp


section \<open>A new top-level parameterized field\<close>

text \<open>
  C6: merging \<open>query($id){ foo(id:$id, withExtra:true){ name extra } }\<close> with \<open>{id: 1}\<close>
  and the payload \<open>{foo:{name:"Foo", extra:false}}\<close> into the empty snapshot and committing
  returns a snapshot with a node at the id \<open>QueryRoot\<close>, separator, \<open>["foo"]\<close>, separator,
  \<open>{"id":1,"withExtra":true}\<close> whose value is \<open>{name:"Foo", extra:false}\<close> and whose
  inbound references are \<open>[{id: QueryRoot, path: undefined}]\<close>; the outbound references of
  \<open>QueryRoot\<close> are \<open>[{id: <param>, path: undefined}]\<close>; the value of \<open>QueryRoot\<close> has no
  field \<open>foo\<close>; and the edited ids are exactly the parameterized id.
\<close>

theorem new_parameterized_field:
  "parameterizedId = ''QueryRoot'' @ separator @ [CHR ''['', dquote] @ ''foo'' @ [dquote, CHR '']''] @ separator
      @ [CHR ''{'', dquote] @ ''id'' @ [dquote] @ '':1,'' @ [dquote] @ ''withExtra'' @ [dquote] @ '':true}''
   \<and> (case mergePayload emptyEditor parameterizedQuery fooPayload of
        None \<Rightarrow> False
      | Some ed \<Rightarrow>
          record_of (store ed) (snapshot (commit ed)) parameterizedId
            = Some \<lparr>node = JObj [(''name'', JStr ''Foo''), (''extra'', JBool False)],
                    inbound = Some [(QueryRootId, None)], outbound = None\<rparr>
          \<and> map_option outbound (record_of (store ed) (snapshot (commit ed)) QueryRootId)
              = Some (Some [(parameterizedId, None)])
          \<and> map_option (\<lambda>r. get_field (node r) ''foo'') (record_of (store ed) (snapshot (commit ed)) QueryRootId)
              = Some JUndefined
          \<and> edited (commit ed) = [parameterizedId]
          \<and> QueryRootId \<notin> set (edited (commit ed)))"
  by code_simp

section \<open>Facts about the operations of the editor\<close>

subsection \<open>References of a record\<close>

lemma ref_list_simps [simp]: "ref_list None = []" "ref_list (Some r) = r"
  by (simp_all add: ref_list_def)

lemma references_set_references [simp]:
  "references d (set_references d' r s) = (if d = d' then r else references d s)"
  by (cases d; cases d') simp_all

lemma node_set_references [simp]: "node (set_references d r s) = node s"
  by (cases d) simp_all

lemma references_node_update [simp]: "references d (s\<lparr>node := v\<rparr>) = references d s"
  by (cases d) simp_all

lemma ref_list_add:
  "ref_list (references d (addNodeReference d' i p s)) =
     (if d = d' then ref_list (references d s) @ [(i, p)] else ref_list (references d s))"
  by (simp add: addNodeReference_def ref_list_def split: option.splits)

lemma ref_list_remove:
  "ref_list (references d (removeNodeReference d' i p s)) =
     (if d = d' then remove1 (i, p) (ref_list (references d s)) else ref_list (references d s))"
  by (simp add: removeNodeReference_def ref_list_def Let_def split: option.splits)

lemma remove_result:
  "removeNodeReference_result d i p s \<longleftrightarrow> remove1 (i, p) (ref_list (references d s)) = []"
  by (simp add: removeNodeReference_result_def ref_list_def split: option.splits)

lemma node_add [simp]: "node (addNodeReference d i p s) = node s"
  by (simp add: addNodeReference_def)

lemma node_remove [simp]: "node (removeNodeReference d i p s) = node s"
  by (simp add: removeNodeReference_def Let_def split: option.splits)

lemma getSnapshot_cases:
  "getSnapshot ed i = Some a \<longleftrightarrow> newNodes ed i = Some (Some a) \<or> (newNodes ed i = None \<and> parent ed i = Some a)"
  by (auto simp: getSnapshot_def split: option.splits)

lemma wf_getSnapshot_lt: "editor_wf base ed \<Longrightarrow> getSnapshot ed i = Some a \<Longrightarrow> a < fresh ed"
  by (fastforce simp: editor_wf_def getSnapshot_cases)

lemma keeps_refl: "editor_wf base ed \<Longrightarrow> keeps base ed ed"
  by (simp add: keeps_def)

lemma keeps_trans: "keeps base ed ed' \<Longrightarrow> keeps base ed' ed'' \<Longrightarrow> keeps base ed ed''"
  by (auto simp: keeps_def)

lemma keeps_wf: "keeps base ed ed' \<Longrightarrow> editor_wf base ed'"
  by (simp add: keeps_def)

subsection \<open>Staging a record\<close>

lemma allocate_keeps:
  assumes wf: "editor_wf base ed" and ns: "\<And>b. newNodes ed i \<noteq> Some (Some b)"
  shows "keeps base ed (snd (allocate i r ed))"
proof -
  let ?ed' = "snd (allocate i r ed)"
  have nn: "newNodes ?ed' j = (if j = i then Some (Some (fresh ed)) else newNodes ed j)" for j
    by (simp add: allocate_def)
  have fr: "fresh ?ed' = Suc (fresh ed)" by (simp add: allocate_def)
  have pa: "parent ?ed' = parent ed" "config ?ed' = config ed" by (simp_all add: allocate_def)
  have st: "store ?ed' a = (if a = fresh ed then r else store ed a)" for a
    by (simp add: allocate_def)
  from wf have b: "base \<le> fresh ed" by (simp add: editor_wf_def)
  have "editor_wf base ?ed'"
    unfolding editor_wf_def
  proof (intro conjI allI impI)
    show "base \<le> fresh ?ed'" using b fr by simp
  next
    fix j a assume "parent ?ed' j = Some a"
    with wf pa show "a < base" by (simp add: editor_wf_def)
  next
    fix j a assume "newNodes ?ed' j = Some (Some a)"
    with nn [of j] have "a = fresh ed \<or> newNodes ed j = Some (Some a)" by (simp split: if_splits)
    moreover from wf have "newNodes ed j = Some (Some a) \<Longrightarrow> base \<le> a" by (simp add: editor_wf_def)
    ultimately show "base \<le> a" using b by auto
  next
    fix j a assume "newNodes ?ed' j = Some (Some a)"
    with nn [of j] have "a = fresh ed \<or> newNodes ed j = Some (Some a)" by (simp split: if_splits)
    moreover from wf have "newNodes ed j = Some (Some a) \<Longrightarrow> a < fresh ed" by (simp add: editor_wf_def)
    ultimately show "a < fresh ?ed'" using fr by auto
  next
    fix j k a assume j: "newNodes ?ed' j = Some (Some a)" and k: "newNodes ?ed' k = Some (Some a)"
    from wf have lt: "\<And>x c. newNodes ed x = Some (Some c) \<Longrightarrow> c < fresh ed"
      by (simp add: editor_wf_def)
    from wf have inj: "\<And>x y c. newNodes ed x = Some (Some c) \<Longrightarrow> newNodes ed y = Some (Some c) \<Longrightarrow> x = y"
      unfolding editor_wf_def by blast
    show "j = k"
    proof (cases "j = i")
      case True
      with j nn have a: "a = fresh ed" by simp
      show ?thesis
      proof (cases "k = i")
        case True with \<open>j = i\<close> show ?thesis by simp
      next
        case False
        with k nn have "newNodes ed k = Some (Some a)" by simp
        from lt [OF this] a show ?thesis by simp
      qed
    next
      case False
      with j nn have j': "newNodes ed j = Some (Some a)" by simp
      show ?thesis
      proof (cases "k = i")
        case True
        with k nn have "a = fresh ed" by simp
        with lt [OF j'] show ?thesis by simp
      next
        case False
        with k nn have "newNodes ed k = Some (Some a)" by simp
        with j' inj show ?thesis by blast
      qed
    qed
  qed
  moreover have "\<forall>a. a < base \<longrightarrow> store ?ed' a = store ed a" using b st by auto
  moreover have "{j. newNodes ?ed' j \<noteq> None} = insert i {j. newNodes ed j \<noteq> None}"
    using nn by auto
  ultimately show ?thesis using pa fr by (simp add: keeps_def)
qed

lemma fst_allocate [simp]: "fst (allocate i r ed) = fresh ed"
  by (simp add: allocate_def)

lemma ensure_cases:
  assumes "ensureNewSnapshot ed i = (a, ed')"
  obtains (staged) "newNodes ed i = Some (Some a)" "ed' = ed"
  | (fresh) "\<And>b. newNodes ed i \<noteq> Some (Some b)" "a = fresh ed" "ed' = snd (allocate i (newNodeSnapshot ed i) ed)"
proof (cases "\<exists>b. newNodes ed i = Some (Some b)")
  case True
  then obtain b where b: "newNodes ed i = Some (Some b)" by blast
  with assms have "a = b" "ed' = ed" by (simp_all add: ensureNewSnapshot_def)
  with b staged show ?thesis by simp
next
  case False
  then have n: "\<And>b. newNodes ed i \<noteq> Some (Some b)" by blast
  then have "ensureNewSnapshot ed i = allocate i (newNodeSnapshot ed i) ed"
    by (simp add: ensureNewSnapshot_def split: option.splits)
  with assms have "a = fst (allocate i (newNodeSnapshot ed i) ed)" "ed' = snd (allocate i (newNodeSnapshot ed i) ed)"
    by simp_all
  with n fresh show ?thesis by simp
qed

lemma ensure_staged:
  "ensureNewSnapshot ed i = (a, ed') \<Longrightarrow> newNodes ed' i = Some (Some a)"
  by (auto simp: ensureNewSnapshot_def allocate_def split: option.splits)

lemma ensure_keeps:
  assumes "editor_wf base ed" "ensureNewSnapshot ed i = (a, ed')"
  shows "keeps base ed ed'"
  using assms(2)
proof (cases rule: ensure_cases)
  case staged
  with assms(1) show ?thesis by (simp add: keeps_refl)
next
  case fresh
  from allocate_keeps [OF assms(1) fresh(1)] fresh(3) show ?thesis by simp
qed

lemma ensure_other:
  "ensureNewSnapshot ed i = (a, ed') \<Longrightarrow> editedNodeIds ed' = editedNodeIds ed \<and> rebuiltNodeIds ed' = rebuiltNodeIds ed"
  by (auto simp: ensureNewSnapshot_def allocate_def split: option.splits)

lemma ensure_getSnapshot_other:
  "ensureNewSnapshot ed i = (a, ed') \<Longrightarrow> j \<noteq> i \<Longrightarrow> getSnapshot ed' j = getSnapshot ed j"
  by (auto simp: ensureNewSnapshot_def allocate_def getSnapshot_def split: option.splits)

lemma newNodeSnapshot_refs:
  "(\<And>b. newNodes ed i \<noteq> Some (Some b)) \<Longrightarrow> ref_list (references d (newNodeSnapshot ed i)) = refs_of d ed i"
  by (cases d) (auto simp: newNodeSnapshot_def refs_of_def refs_at_def getSnapshot_def split: option.splits)

lemma ensure_refs:
  assumes wf: "editor_wf base ed" and e: "ensureNewSnapshot ed i = (a, ed')"
  shows "refs_of d ed' j = refs_of d ed j"
  using e
proof (cases rule: ensure_cases)
  case staged
  then show ?thesis by simp
next
  case fresh
  note ed' = fresh(3)
  show ?thesis
  proof (cases "j = i")
    case True
    have "getSnapshot ed' i = Some (fresh ed)" by (simp add: ed' allocate_def getSnapshot_def)
    moreover have "store ed' (fresh ed) = newNodeSnapshot ed i" by (simp add: ed' allocate_def)
    ultimately have l: "refs_of d ed' i = ref_list (references d (newNodeSnapshot ed i))"
      by (simp add: refs_of_def refs_at_def)
    with True fresh(1) show ?thesis by (simp add: newNodeSnapshot_refs)
  next
    case False
    then have g: "getSnapshot ed' j = getSnapshot ed j"
      using e by (rule ensure_getSnapshot_other [rotated])
    show ?thesis
    proof (cases "getSnapshot ed j")
      case None
      with g show ?thesis by (simp add: refs_of_def refs_at_def)
    next
      case (Some b)
      from wf_getSnapshot_lt [OF wf Some] have "b \<noteq> fresh ed" by simp
      then have "store ed' b = store ed b" by (simp add: ed' allocate_def)
      with g Some show ?thesis by (simp add: refs_of_def refs_at_def)
    qed
  qed
qed


subsection \<open>Writing to a staged record\<close>

lemma modify_fields [simp]:
  "newNodes (modify a f ed) = newNodes ed" "parent (modify a f ed) = parent ed"
  "fresh (modify a f ed) = fresh ed" "config (modify a f ed) = config ed"
  "editedNodeIds (modify a f ed) = editedNodeIds ed" "rebuiltNodeIds (modify a f ed) = rebuiltNodeIds ed"
  "getSnapshot (modify a f ed) = getSnapshot ed"
  by (simp_all add: modify_def getSnapshot_def fun_eq_iff cong: option.case_cong)

lemma store_modify: "store (modify a f ed) b = (if b = a then f (store ed a) else store ed b)"
  by (simp add: modify_def)

lemma staged_getSnapshot: "newNodes ed i = Some (Some a) \<Longrightarrow> getSnapshot ed i = Some a"
  by (simp add: getSnapshot_def)

lemma wf_modify [simp]: "editor_wf base (modify a f ed) = editor_wf base ed"
  by (simp add: editor_wf_def)

lemma modify_keeps:
  assumes "editor_wf base ed" "newNodes ed i = Some (Some a)"
  shows "keeps base ed (modify a f ed)"
proof -
  from assms have "base \<le> a" by (simp add: editor_wf_def)
  then have "\<forall>b. b < base \<longrightarrow> store (modify a f ed) b = store ed b" by (simp add: store_modify)
  with assms(1) show ?thesis by (simp add: keeps_def)
qed

lemma staged_unique:
  assumes wf: "editor_wf base ed" and s: "newNodes ed i = Some (Some a)" and g: "getSnapshot ed j = Some a"
  shows "j = i"
proof -
  from g have "newNodes ed j = Some (Some a) \<or> (newNodes ed j = None \<and> parent ed j = Some a)"
    by (simp add: getSnapshot_cases)
  then show ?thesis
  proof
    assume "newNodes ed j = Some (Some a)"
    with wf s show ?thesis unfolding editor_wf_def by blast
  next
    assume "newNodes ed j = None \<and> parent ed j = Some a"
    moreover from wf have "\<And>i a. parent ed i = Some a \<Longrightarrow> a < base" by (simp add: editor_wf_def)
    ultimately have "a < base" by blast
    moreover from wf s have "base \<le> a" by (simp add: editor_wf_def)
    ultimately show ?thesis by simp
  qed
qed

lemma staged_refs: "newNodes ed i = Some (Some a) \<Longrightarrow> refs_of d ed i = ref_list (references d (store ed a))"
  by (simp add: refs_of_def refs_at_def staged_getSnapshot)

lemma modify_refs:
  assumes wf: "editor_wf base ed" and s: "newNodes ed i = Some (Some a)"
  shows "refs_of d (modify a f ed) j =
           (if j = i then ref_list (references d (f (store ed a))) else refs_of d ed j)"
proof (cases "j = i")
  case True
  with s show ?thesis by (simp add: refs_of_def refs_at_def staged_getSnapshot store_modify)
next
  case False
  show ?thesis
  proof (cases "getSnapshot ed j")
    case None
    with False show ?thesis by (simp add: refs_of_def refs_at_def)
  next
    case (Some b)
    with staged_unique [OF wf s] False have "b \<noteq> a" by blast
    with Some False show ?thesis by (simp add: refs_of_def refs_at_def store_modify)
  qed
qed

subsection \<open>The sets of ids\<close>

lemma wf_edited_update [simp]: "editor_wf base (ed\<lparr>editedNodeIds := x\<rparr>) = editor_wf base ed"
  by (simp add: editor_wf_def)

lemma wf_rebuilt_update [simp]: "editor_wf base (ed\<lparr>rebuiltNodeIds := x\<rparr>) = editor_wf base ed"
  by (simp add: editor_wf_def)

lemma getSnapshot_edited_update [simp]: "getSnapshot (ed\<lparr>editedNodeIds := x\<rparr>) = getSnapshot ed"
  by (simp add: getSnapshot_def fun_eq_iff cong: option.case_cong)

lemma getSnapshot_rebuilt_update [simp]: "getSnapshot (ed\<lparr>rebuiltNodeIds := x\<rparr>) = getSnapshot ed"
  by (simp add: getSnapshot_def fun_eq_iff cong: option.case_cong)

lemma refs_edited_update [simp]: "refs_of d (ed\<lparr>editedNodeIds := x\<rparr>) = refs_of d ed"
  by (simp add: refs_of_def fun_eq_iff)

lemma refs_rebuilt_update [simp]: "refs_of d (ed\<lparr>rebuiltNodeIds := x\<rparr>) = refs_of d ed"
  by (simp add: refs_of_def fun_eq_iff)

lemma keeps_edited_update [simp]: "keeps base ed (ed'\<lparr>editedNodeIds := x\<rparr>) = keeps base ed ed'"
  by (simp add: keeps_def)

lemma keeps_rebuilt_update [simp]: "keeps base ed (ed'\<lparr>rebuiltNodeIds := x\<rparr>) = keeps base ed ed'"
  by (simp add: keeps_def)

subsection \<open>Setting a value\<close>

lemma setValue_eq:
  assumes "ensureNewSnapshot (if e then ed\<lparr>editedNodeIds := set_add i (editedNodeIds ed)\<rparr> else ed) i = (a, ed2)"
  shows "setValue ed i p v e =
     modify a (\<lambda>s. s\<lparr>node := lazyImmutableDeepSet (node s)
        (case parent ed i of Some pa \<Rightarrow> node (store ed pa) | None \<Rightarrow> JUndefined) p v\<rparr>) ed2"
  using assms by (cases e) (simp_all add: setValue_def Let_def cong: option.case_cong)

lemma setValue_keeps:
  assumes wf: "editor_wf base ed"
  shows "keeps base ed (setValue ed i p v e)"
proof -
  let ?ed1 = "if e then ed\<lparr>editedNodeIds := set_add i (editedNodeIds ed)\<rparr> else ed"
  obtain a ed2 where en: "ensureNewSnapshot ?ed1 i = (a, ed2)" by (cases "ensureNewSnapshot ?ed1 i")
  from wf have wf1: "editor_wf base ?ed1" by simp
  from ensure_keeps [OF wf1 en] have k: "keeps base ?ed1 ed2" .
  then have k': "keeps base ed ed2" by (cases e) (simp_all add: keeps_def)
  have "keeps base ed2 (modify a f ed2)" for f
    by (rule modify_keeps [OF keeps_wf [OF k] ensure_staged [OF en]])
  with k' have "keeps base ed (modify a f ed2)" for f by (rule keeps_trans)
  then show ?thesis by (simp only: setValue_eq [OF en])
qed

lemma setValue_refs:
  assumes wf: "editor_wf base ed"
  shows "refs_of d (setValue ed i p v e) j = refs_of d ed j"
proof -
  let ?ed1 = "if e then ed\<lparr>editedNodeIds := set_add i (editedNodeIds ed)\<rparr> else ed"
  obtain a ed2 where en: "ensureNewSnapshot ?ed1 i = (a, ed2)" by (cases "ensureNewSnapshot ?ed1 i")
  from wf have wf1: "editor_wf base ?ed1" by simp
  from ensure_keeps [OF wf1 en] have wf2: "editor_wf base ed2" by (rule keeps_wf)
  have r1: "refs_of d ed2 j = refs_of d ed j" for j
    using ensure_refs [OF wf1 en, of d j] by (cases e) simp_all
  have "refs_of d (setValue ed i p v e) j = refs_of d ed2 j"
    unfolding setValue_eq [OF en]
    by (simp add: modify_refs [OF wf2 ensure_staged [OF en]] staged_refs [OF ensure_staged [OF en]])
  with r1 show ?thesis by simp
qed

lemma setValue_ids:
  "editedNodeIds (setValue ed i p v e) = (if e then set_add i (editedNodeIds ed) else editedNodeIds ed)"
  "rebuiltNodeIds (setValue ed i p v e) = rebuiltNodeIds ed"
proof -
  let ?ed1 = "if e then ed\<lparr>editedNodeIds := set_add i (editedNodeIds ed)\<rparr> else ed"
  obtain a ed2 where en: "ensureNewSnapshot ?ed1 i = (a, ed2)" by (cases "ensureNewSnapshot ?ed1 i")
  from ensure_other [OF en] have o: "editedNodeIds ed2 = editedNodeIds ?ed1" "rebuiltNodeIds ed2 = rebuiltNodeIds ?ed1"
    by simp_all
  show "editedNodeIds (setValue ed i p v e) = (if e then set_add i (editedNodeIds ed) else editedNodeIds ed)"
    unfolding setValue_eq [OF en] using o(1) by simp
  show "rebuiltNodeIds (setValue ed i p v e) = rebuiltNodeIds ed"
    unfolding setValue_eq [OF en] using o(2) by simp
qed


subsection \<open>Symmetry and pairs of references\<close>

lemma symmetric_iff:
  "symmetric ed \<longleftrightarrow>
     (\<forall>h t p. count_list (refs_of Outbound ed h) (t, p) = count_list (refs_of Inbound ed t) (h, p))"
  by (simp add: symmetric_def symmetric_at_def refs_of_def)

lemma symmetric_same:
  assumes "\<And>d j. refs_of d ed' j = refs_of d ed j"
  shows "symmetric ed' = symmetric ed"
  by (simp add: symmetric_iff assms)

lemma count_list_remove1:
  "count_list (remove1 x xs) y = (if x = y then count_list xs y - 1 else count_list xs y)"
proof (induction xs)
  case Nil
  show ?case by simp
next
  case (Cons a xs)
  show ?case
  proof (cases "x = a")
    case True
    then show ?thesis by simp
  next
    case False
    with Cons show ?thesis by (cases "x = y") simp_all
  qed
qed

lemma count_list_snoc:
  "count_list (xs @ [x]) y = (if x = y then count_list xs y + 1 else count_list xs y)"
  by (induction xs) auto

lemma symmetric_add_pair:
  assumes sym: "symmetric ed"
    and out: "\<And>h. refs_of Outbound ed' h = (if h = c then refs_of Outbound ed h @ [(t, p)] else refs_of Outbound ed h)"
    and inn: "\<And>x. refs_of Inbound ed' x = (if x = t then refs_of Inbound ed x @ [(c, p)] else refs_of Inbound ed x)"
  shows "symmetric ed'"
  unfolding symmetric_iff
proof (intro allI)
  fix h x q
  from sym have s: "count_list (refs_of Outbound ed h) (x, q) = count_list (refs_of Inbound ed x) (h, q)"
    by (simp add: symmetric_iff)
  show "count_list (refs_of Outbound ed' h) (x, q) = count_list (refs_of Inbound ed' x) (h, q)"
    using s by (auto simp: out inn count_list_snoc)
qed

lemma symmetric_remove_pair:
  assumes sym: "symmetric ed"
    and out: "\<And>h. refs_of Outbound ed' h = (if h = c then remove1 (t, p) (refs_of Outbound ed h) else refs_of Outbound ed h)"
    and inn: "\<And>x. refs_of Inbound ed' x = (if x = t then remove1 (c, p) (refs_of Inbound ed x) else refs_of Inbound ed x)"
  shows "symmetric ed'"
  unfolding symmetric_iff
proof (intro allI)
  fix h x q
  from sym have s: "count_list (refs_of Outbound ed h) (x, q) = count_list (refs_of Inbound ed x) (h, q)"
    by (simp add: symmetric_iff)
  show "count_list (refs_of Outbound ed' h) (x, q) = count_list (refs_of Inbound ed' x) (h, q)"
    using s by (auto simp: out inn count_list_remove1)
qed

text \<open>A change of the references of a staged record, then of the record at the other end.\<close>

lemma modify_references:
  assumes wf: "editor_wf base ed" and s: "newNodes ed i = Some (Some a)"
    and f: "\<And>d s. ref_list (references d (f s)) = (if d = d0 then g (ref_list (references d s)) else ref_list (references d s))"
  shows "refs_of d (modify a f ed) j = (if j = i \<and> d = d0 then g (refs_of d ed j) else refs_of d ed j)"
  by (simp add: modify_refs [OF wf s] f staged_refs [OF s])

lemma change_both_ends:
  assumes wf: "editor_wf base ed" and s: "newNodes ed cid = Some (Some c)"
    and f: "\<And>d s. ref_list (references d (f s)) = (if d = Outbound then g (ref_list (references d s)) else ref_list (references d s))"
    and f': "\<And>d s. ref_list (references d (f' s)) = (if d = Inbound then g' (ref_list (references d s)) else ref_list (references d s))"
    and en: "ensureNewSnapshot (modify c f ed) tid = (t, ed1)"
  shows "keeps base ed (modify t f' ed1)"
    and "refs_of Outbound (modify t f' ed1) h = (if h = cid then g (refs_of Outbound ed h) else refs_of Outbound ed h)"
    and "refs_of Inbound (modify t f' ed1) x = (if x = tid then g' (refs_of Inbound ed x) else refs_of Inbound ed x)"
    and "editedNodeIds (modify t f' ed1) = editedNodeIds ed"
    and "rebuiltNodeIds (modify t f' ed1) = rebuiltNodeIds ed"
    and "newNodes (modify t f' ed1) tid = Some (Some t)"
proof -
  let ?e0 = "modify c f ed"
  have k0: "keeps base ed ?e0" by (rule modify_keeps [OF wf s])
  then have wf0: "editor_wf base ?e0" by (rule keeps_wf)
  have k1: "keeps base ?e0 ed1" by (rule ensure_keeps [OF wf0 en])
  then have wf1: "editor_wf base ed1" by (rule keeps_wf)
  have st: "newNodes ed1 tid = Some (Some t)" by (rule ensure_staged [OF en])
  have k2: "keeps base ed1 (modify t f' ed1)" by (rule modify_keeps [OF wf1 st])
  from k0 k1 have "keeps base ed ed1" by (rule keeps_trans)
  then show "keeps base ed (modify t f' ed1)" using k2 by (rule keeps_trans)
  have r0: "refs_of d ?e0 j = (if j = cid \<and> d = Outbound then g (refs_of d ed j) else refs_of d ed j)" for d j
    by (rule modify_references [OF wf s f])
  have r1: "refs_of d ed1 j = refs_of d ?e0 j" for d j
    by (rule ensure_refs [OF wf0 en])
  have r2: "refs_of d (modify t f' ed1) j = (if j = tid \<and> d = Inbound then g' (refs_of d ed1 j) else refs_of d ed1 j)" for d j
    by (rule modify_references [OF wf1 st f'])
  show "refs_of Outbound (modify t f' ed1) h = (if h = cid then g (refs_of Outbound ed h) else refs_of Outbound ed h)"
    by (simp add: r2 r1 r0)
  show "refs_of Inbound (modify t f' ed1) x = (if x = tid then g' (refs_of Inbound ed x) else refs_of Inbound ed x)"
    by (simp add: r2 r1 r0)
  from ensure_other [OF en]
  show "editedNodeIds (modify t f' ed1) = editedNodeIds ed" "rebuiltNodeIds (modify t f' ed1) = rebuiltNodeIds ed"
    by simp_all
  from st show "newNodes (modify t f' ed1) tid = Some (Some t)" by simp
qed

lemma add_spec:
  "ref_list (references d (addNodeReference d0 i p s)) =
     (if d = d0 then (\<lambda>r. r @ [(i, p)]) (ref_list (references d s)) else ref_list (references d s))"
  by (simp add: ref_list_add)

lemma remove_spec:
  "ref_list (references d (removeNodeReference d0 i p s)) =
     (if d = d0 then remove1 (i, p) (ref_list (references d s)) else ref_list (references d s))"
  by (simp add: ref_list_remove)



subsection \<open>The parameterized edge\<close>

lemma add_both_ends:
  assumes wf: "editor_wf base ed" and s: "newNodes ed cid = Some (Some c)"
    and en: "ensureNewSnapshot (modify c (addNodeReference Outbound tid p) ed) tid = (t, ed1)"
    and r: "r = modify t (addNodeReference Inbound cid p) ed1"
  shows "keeps base ed r"
    and "refs_of Outbound r h = (if h = cid then refs_of Outbound ed h @ [(tid, p)] else refs_of Outbound ed h)"
    and "refs_of Inbound r x = (if x = tid then refs_of Inbound ed x @ [(cid, p)] else refs_of Inbound ed x)"
    and "editedNodeIds r = editedNodeIds ed"
    and "rebuiltNodeIds r = rebuiltNodeIds ed"
  unfolding r
  using change_both_ends [where f = "addNodeReference Outbound tid p" and g = "\<lambda>r. r @ [(tid, p)]"
      and f' = "addNodeReference Inbound cid p" and g' = "\<lambda>r. r @ [(cid, p)]", OF wf s _ _ en]
  by (simp_all add: ref_list_add)

lemma remove_both_ends:
  assumes wf: "editor_wf base ed" and s: "newNodes ed cid = Some (Some c)"
    and en: "ensureNewSnapshot (modify c (removeNodeReference Outbound tid p) ed) tid = (t, ed1)"
    and r: "r = modify t (removeNodeReference Inbound cid p) ed1"
  shows "keeps base ed r"
    and "refs_of Outbound r h = (if h = cid then remove1 (tid, p) (refs_of Outbound ed h) else refs_of Outbound ed h)"
    and "refs_of Inbound r x = (if x = tid then remove1 (cid, p) (refs_of Inbound ed x) else refs_of Inbound ed x)"
    and "editedNodeIds r = editedNodeIds ed"
    and "rebuiltNodeIds r = rebuiltNodeIds ed"
    and "newNodes r tid = Some (Some t)"
  unfolding r
  using change_both_ends [where f = "removeNodeReference Outbound tid p" and g = "remove1 (tid, p)"
      and f' = "removeNodeReference Inbound cid p" and g' = "remove1 (cid, p)", OF wf s _ _ en]
  by (simp_all add: ref_list_remove)

lemma ensureParameterizedEdge_facts:
  assumes wf: "editor_wf base ed"
  shows "keeps base ed (ensureParameterizedEdge ed cid eid)
    \<and> (symmetric ed \<longrightarrow> symmetric (ensureParameterizedEdge ed cid eid))
    \<and> editedNodeIds (ensureParameterizedEdge ed cid eid) = editedNodeIds ed
    \<and> rebuiltNodeIds (ensureParameterizedEdge ed cid eid) = rebuiltNodeIds ed"
proof -
  obtain c ed1 where en: "ensureNewSnapshot ed cid = (c, ed1)" by (cases "ensureNewSnapshot ed cid")
  have k1: "keeps base ed ed1" by (rule ensure_keeps [OF wf en])
  then have wf1: "editor_wf base ed1" by (rule keeps_wf)
  have st: "newNodes ed1 cid = Some (Some c)" by (rule ensure_staged [OF en])
  have r1: "refs_of d ed1 j = refs_of d ed j" for d j by (rule ensure_refs [OF wf en])
  have o1: "editedNodeIds ed1 = editedNodeIds ed" "rebuiltNodeIds ed1 = rebuiltNodeIds ed"
    using ensure_other [OF en] by simp_all
  show ?thesis
  proof (cases "hasNodeReference (store ed1 c) Outbound eid None")
    case True
    then have eq: "ensureParameterizedEdge ed cid eid = ed1"
      by (simp add: ensureParameterizedEdge_def en)
    have "symmetric ed1 = symmetric ed" by (rule symmetric_same) (rule r1)
    with k1 o1 show ?thesis by (simp add: eq)
  next
    case False
    obtain t ed2 where en2: "ensureNewSnapshot (modify c (addNodeReference Outbound eid None) ed1) eid = (t, ed2)"
      by (cases "ensureNewSnapshot (modify c (addNodeReference Outbound eid None) ed1) eid")
    define r where "r = modify t (addNodeReference Inbound cid None) ed2"
    from False have eq: "ensureParameterizedEdge ed cid eid = r"
      by (simp add: ensureParameterizedEdge_def en en2 r_def)
    note ch = add_both_ends [OF wf1 st en2 r_def]
    from k1 ch(1) have k: "keeps base ed r" by (rule keeps_trans)
    have s: "symmetric r" if "symmetric ed"
    proof (rule symmetric_add_pair [where ed = ed and c = cid and t = eid and p = None])
      show "symmetric ed" by (rule that)
      show "refs_of Outbound r h = (if h = cid then refs_of Outbound ed h @ [(eid, None)] else refs_of Outbound ed h)" for h
        by (simp add: ch(2) r1)
      show "refs_of Inbound r x = (if x = eid then refs_of Inbound ed x @ [(cid, None)] else refs_of Inbound ed x)" for x
        by (simp add: ch(3) r1)
    qed
    from k s ch(4) ch(5) o1 show ?thesis by (simp add: eq)
  qed
qed

subsection \<open>Phase 1 keeps the editor well-formed and symmetric\<close>

lemma extends_refl: "editor_wf base ed \<Longrightarrow> extends base ed ed"
  by (simp add: extends_def keeps_refl)

lemma extends_trans: "extends base ed ed' \<Longrightarrow> extends base ed' ed'' \<Longrightarrow> extends base ed ed''"
  unfolding extends_def using keeps_trans by blast

lemma extends_wf: "extends base ed ed' \<Longrightarrow> editor_wf base ed'"
  by (auto simp: extends_def dest: keeps_wf)

lemma setValue_extends:
  assumes wf: "editor_wf base ed"
  shows "extends base ed (setValue ed i p v e)"
proof -
  have "symmetric (setValue ed i p v e) = symmetric ed"
    by (rule symmetric_same) (rule setValue_refs [OF wf])
  with setValue_keeps [OF wf] show ?thesis by (simp add: extends_def)
qed

lemma ensureParameterizedEdge_extends:
  "editor_wf base ed \<Longrightarrow> extends base ed (ensureParameterizedEdge ed cid eid)"
  using ensureParameterizedEdge_facts [of base ed cid eid] by (simp add: extends_def)

lemma mergeVisitor_editor_None:
  "\<exists>e. fst (snd (mergeVisitor query cid path pv nv None (ed, queue, edits))) = e
     \<and> (e = ed \<or> (\<exists>v. e = setValue ed cid path v True))"
  unfolding mergeVisitor_def Let_def prod.case option.case
  by (auto split del: if_split split: if_splits
      simp del: truthy.simps isArray.simps isScalar.simps js_length.simps)

lemma mergeVisitor_extends:
  assumes wf: "editor_wf base ed"
  shows "extends base ed (fst (snd (mergeVisitor query cid path pv nv pe (ed, queue, edits))))"
proof (cases pe)
  case (Some edge)
  then show ?thesis
    by (simp add: mergeVisitor_def Let_def ensureParameterizedEdge_extends [OF wf])
next
  case None
  with mergeVisitor_editor_None [of query cid path pv nv ed queue edits]
  show ?thesis
    by (auto simp: extends_refl [OF wf] setValue_extends [OF wf])
qed

lemma walk_preserves_aux:
  fixes P :: "'s \<Rightarrow> bool"
  shows "(\<forall>path pv nv pe st. P st \<longrightarrow> P (snd (visitor path pv nv pe st))) \<Longrightarrow> P st
           \<Longrightarrow> P (walk_position visitor path payload nv em visit st)"
    and "(\<forall>path pv nv pe st. P st \<longrightarrow> P (snd (visitor path pv nv pe st))) \<Longrightarrow> P st
           \<Longrightarrow> P (walk_elements visitor path i xs nv em st)"
    and "(\<forall>path pv nv pe st. P st \<longrightarrow> P (snd (visitor path pv nv pe st))) \<Longrightarrow> P st
           \<Longrightarrow> P (walk_properties visitor path kvs nv em st)"
proof (induction visitor path payload nv em visit st and visitor path i xs nv em st
    and visitor path kvs nv em st rule: walk_position_walk_elements_walk_properties.induct)
  case (1 visitor path payload nodeValue edgeMap visit st)
  note v = "1.prems"(1) and P = "1.prems"(2)
  define r where "r = (if visit then visitor path payload nodeValue (edge_here edgeMap) st else (False, st))"
  obtain skip st' where r: "r = (skip, st')" by (cases r)
  have P': "P st'"
  proof (cases visit)
    case True
    with r have "st' = snd (visitor path payload nodeValue (edge_here edgeMap) st)" by (simp add: r_def)
    with v P show ?thesis by simp
  next
    case False
    with r P show ?thesis by (simp add: r_def)
  qed
  have unfold: "walk_position visitor path payload nodeValue edgeMap visit st =
      (if skip then st' else (case payload of
                  JArr xs \<Rightarrow> walk_elements visitor path 0 xs nodeValue edgeMap st'
                | JObj kvs \<Rightarrow> walk_properties visitor path kvs nodeValue edgeMap st'
                | _ \<Rightarrow> st'))"
    using r by (simp add: walk_position.simps r_def)
  show ?case
  proof (cases skip)
    case True
    with P' show ?thesis by (simp add: unfold)
  next
    case False
    show ?thesis
    proof (cases payload)
      case (JArr xs)
      from "1.IH"(1) [OF r [unfolded r_def, symmetric] False JArr v P'] False JArr
      show ?thesis unfolding unfold by simp
    next
      case (JObj kvs)
      from "1.IH"(2) [OF r [unfolded r_def, symmetric] False JObj v P'] False JObj
      show ?thesis unfolding unfold by simp
    qed (use False P' in \<open>unfold unfold, simp_all\<close>)
  qed
next
  case (2 visitor path i nodeValue edgeMap st)
  then show ?case by simp
next
  case (3 visitor path i x xs nodeValue edgeMap st)
  from "3.IH"(1) [OF "3.prems"] have "P (walk_position visitor (path @ [Idx i]) x (get_index nodeValue i) edgeMap True st)" .
  from "3.IH"(2) [OF "3.prems"(1) this] show ?case by (simp only: walk_elements.simps)
next
  case (4 visitor path nodeValue edgeMap st)
  then show ?case by simp
next
  case (5 visitor path k v kvs nodeValue edgeMap st)
  from "5.IH"(1) [OF "5.prems"] have "P (walk_position visitor (path @ [Key k]) v (get_field nodeValue k) (edge_child edgeMap k) True st)" .
  from "5.IH"(2) [OF "5.prems"(1) this] show ?case by (simp only: walk_properties.simps)
qed

lemma walkPayload_preserves:
  fixes P :: "'s \<Rightarrow> bool"
  assumes "\<And>path pv nv pe st. P st \<Longrightarrow> P (snd (visitor path pv nv pe st))" and "P st"
  shows "P (walkPayload payload nv em visitRoot visitor st)"
  unfolding walkPayload_def
proof (rule walk_preserves_aux(1))
  show "\<forall>path pv nv pe st. P st \<longrightarrow> P (snd (visitor path pv nv pe st))"
    using assms(1) by blast
qed (rule assms(2))

lemma walkPayload_extends:
  assumes "extends base ed0 (fst st)"
  shows "extends base ed0 (fst (walkPayload payload nv em visitRoot (mergeVisitor query cid) st))"
proof (rule walkPayload_preserves [where P = "\<lambda>st. extends base ed0 (fst st)"])
  fix path pv nv pe and st :: MergeState
  assume a: "extends base ed0 (fst st)"
  obtain ed queue edits where st: "st = (ed, queue, edits)" by (cases st)
  from a st have "editor_wf base ed" by (auto dest: extends_wf)
  from mergeVisitor_extends [OF this] a st
  show "extends base ed0 (fst (snd (mergeVisitor query cid path pv nv pe st)))"
    by (auto intro: extends_trans)
qed (rule assms)

lemmas mergeQueue_induct = mergeQueue.raw_induct [rotated 1, consumes 1, case_names step]

lemma mergeQueue_extends_aux:
  assumes "mergeQueue query st = Some y"
  shows "extends base ed0 (fst st) \<longrightarrow> extends base ed0 (snd y)"
  using assms
proof (induction rule: mergeQueue_induct)
  case (step mq query st y)
  obtain ed queue es where st: "st = (ed, queue, es)" by (cases st)
  show ?case
  proof (cases queue)
    case Nil
    with step.hyps st show ?thesis by auto
  next
    case (Cons item rest)
    obtain cid payload vr where item: "item = (cid, payload, vr)" by (cases item)
    let ?st' = "walkPayload payload (get_value ed cid) (parameterizedEdgesForOperation (document query)) vr
                  (mergeVisitor query cid) (ed, rest, es)"
    from step.hyps st Cons item have "mq query ?st' = Some y" by simp
    from step.IH [OF this] have "extends base ed0 (fst ?st') \<longrightarrow> extends base ed0 (snd y)" .
    moreover have "extends base ed0 (fst ?st')" if "extends base ed0 (fst st)"
      using that st by (intro walkPayload_extends) simp
    ultimately show ?thesis by blast
  qed
qed

lemma mergePayloadValues_extends:
  assumes "mergePayloadValues ed query payload = Some (edits, ed')" "editor_wf base ed"
  shows "extends base ed ed'"
  using mergeQueue_extends_aux [OF assms(1) [unfolded mergePayloadValues_def], of base ed]
    extends_refl [OF assms(2)] by simp


subsection \<open>Phase 2 keeps the editor well-formed and symmetric\<close>

lemma ensure_staged_kept:
  assumes "newNodes ed j = Some (Some b)" "ensureNewSnapshot ed i = (a, ed')"
  shows "newNodes ed' j = Some (Some b)"
  using assms(2)
proof (cases rule: ensure_cases)
  case staged
  with assms(1) show ?thesis by simp
next
  case fresh
  from fresh(1) assms(1) have "j \<noteq> i" by auto
  with assms(1) fresh(3) show ?thesis by (simp add: allocate_def)
qed

lemma removePrevReference_facts:
  assumes wf: "editor_wf base ed" and s: "newNodes ed cid = Some (Some c)"
    and r: "removePrevReference cid path c prev (ed, orph) = (ed', orph')"
  shows "extends base ed ed'" and "unreferenced ed orph \<Longrightarrow> unreferenced ed' orph'"
    and "newNodes ed' cid = Some (Some c)" and "editedNodeIds ed' = editedNodeIds ed"
    and "rebuiltNodeIds ed' = rebuiltNodeIds ed"
proof -
  obtain t ed1 where en: "ensureNewSnapshot (modify c (removeNodeReference Outbound prev (Some path)) ed) prev = (t, ed1)"
    by (cases "ensureNewSnapshot (modify c (removeNodeReference Outbound prev (Some path)) ed) prev")
  define e2 where "e2 = modify t (removeNodeReference Inbound cid (Some path)) ed1"
  note ch = remove_both_ends [OF wf s en e2_def]
  from r en have ed': "ed' = e2"
    and orph': "orph' = (if inbound (store e2 t) = None then set_add prev orph else orph)"
    by (auto simp: removePrevReference_def Let_def e2_def)
  have "symmetric e2" if "symmetric ed"
    using that ch(2) ch(3) by (rule symmetric_remove_pair)
  with ch(1) show "extends base ed ed'" by (simp add: extends_def ed')
  show "unreferenced ed' orph'" if u: "unreferenced ed orph"
  proof -
    have old: "refs_of Inbound e2 x = []" if "x \<in> set orph" for x
    proof -
      from u that have "refs_of Inbound ed x = []" by (simp add: unreferenced_def)
      then show ?thesis by (cases "x = prev") (simp_all add: ch(3))
    qed
    have new: "refs_of Inbound e2 prev = []" if "inbound (store e2 t) = None"
      using that staged_refs [OF ch(6), of Inbound] by simp
    show ?thesis
      using old new by (auto simp: unreferenced_def ed' orph' set_add_def)
  qed
  have "newNodes (modify c (removeNodeReference Outbound prev (Some path)) ed) cid = Some (Some c)"
    using s by simp
  from ensure_staged_kept [OF this en] show "newNodes ed' cid = Some (Some c)"
    by (simp add: ed' e2_def)
  from ch(4) ch(5) show "editedNodeIds ed' = editedNodeIds ed" "rebuiltNodeIds ed' = rebuiltNodeIds ed"
    by (simp_all add: ed')
qed

lemma addNextReference_facts:
  assumes wf: "editor_wf base ed" and s: "newNodes ed cid = Some (Some c)"
    and r: "addNextReference cid path c next (ed, orph) = (ed', orph')"
  shows "extends base ed ed'" and "unreferenced ed orph \<Longrightarrow> unreferenced ed' orph'"
    and "editedNodeIds ed' = editedNodeIds ed" and "rebuiltNodeIds ed' = rebuiltNodeIds ed"
proof -
  obtain t ed1 where en: "ensureNewSnapshot (modify c (addNodeReference Outbound next (Some path)) ed) next = (t, ed1)"
    by (cases "ensureNewSnapshot (modify c (addNodeReference Outbound next (Some path)) ed) next")
  define e2 where "e2 = modify t (addNodeReference Inbound cid (Some path)) ed1"
  note ch = add_both_ends [OF wf s en e2_def]
  from r en have ed': "ed' = e2" and orph': "orph' = set_delete next orph"
    by (auto simp: addNextReference_def e2_def)
  have "symmetric e2" if "symmetric ed"
    using that ch(2) ch(3) by (rule symmetric_add_pair)
  with ch(1) show "extends base ed ed'" by (simp add: extends_def ed')
  show "unreferenced ed' orph'" if u: "unreferenced ed orph"
    using u by (auto simp: unreferenced_def ed' orph' set_delete_def ch(3))
  from ch(4) ch(5) show "editedNodeIds ed' = editedNodeIds ed" "rebuiltNodeIds ed' = rebuiltNodeIds ed"
    by (simp_all add: ed')
qed

lemma ensure_again:
  "newNodes ed i = Some (Some a) \<Longrightarrow> ensureNewSnapshot ed i = (a, ed)"
  by (simp add: ensureNewSnapshot_def)

lemma setValue_staged:
  "\<exists>a. newNodes (setValue ed i p v e) i = Some (Some a)"
proof -
  let ?ed1 = "if e then ed\<lparr>editedNodeIds := set_add i (editedNodeIds ed)\<rparr> else ed"
  obtain a ed2 where en: "ensureNewSnapshot ?ed1 i = (a, ed2)" by (cases "ensureNewSnapshot ?ed1 i")
  from ensure_staged [OF en] show ?thesis unfolding setValue_eq [OF en] by simp
qed

lemma unreferenced_same:
  assumes "\<And>j. refs_of Inbound ed' j = refs_of Inbound ed j"
  shows "unreferenced ed' ids = unreferenced ed ids"
  by (simp add: unreferenced_def assms)

lemma mergeReferenceEdit_facts:
  assumes wf: "editor_wf base ed"
    and r: "mergeReferenceEdit edit (ed, orph) = (ed', orph')"
  shows "extends base ed ed'" and "unreferenced ed orph \<Longrightarrow> unreferenced ed' orph'"
proof -
  obtain cid path prev "next" where edit: "edit = (cid, path, prev, next)" by (cases edit)
  define target where "target = (if id_truthy next then get_value ed (the next) else JNull)"
  define e1 where "e1 = setValue ed cid path target True"
  obtain c where c: "newNodes e1 cid = Some (Some c)" using setValue_staged [of ed cid path target True]
    by (auto simp: e1_def)
  have x1: "extends base ed e1" unfolding e1_def by (rule setValue_extends [OF wf])
  then have wf1: "editor_wf base e1" by (rule extends_wf)
  have u1: "unreferenced e1 orph = unreferenced ed orph"
    unfolding e1_def by (rule unreferenced_same) (rule setValue_refs [OF wf])
  define st1 where "st1 = (if id_truthy prev then removePrevReference cid path c (the prev) (e1, orph) else (e1, orph))"
  obtain e2 o2 where st1: "st1 = (e2, o2)" by (cases st1)
  have x2: "extends base e1 e2" and u2: "unreferenced e1 orph \<Longrightarrow> unreferenced e2 o2"
    and c2: "newNodes e2 cid = Some (Some c)"
  proof -
    show "extends base e1 e2"
    proof (cases "id_truthy prev")
      case True
      with st1 have "removePrevReference cid path c (the prev) (e1, orph) = (e2, o2)" by (simp add: st1_def)
      from removePrevReference_facts(1) [OF wf1 c this] show ?thesis .
    next
      case False
      with st1 wf1 show ?thesis by (simp add: st1_def extends_refl)
    qed
    show "unreferenced e2 o2" if "unreferenced e1 orph"
    proof (cases "id_truthy prev")
      case True
      with st1 have "removePrevReference cid path c (the prev) (e1, orph) = (e2, o2)" by (simp add: st1_def)
      from removePrevReference_facts(2) [OF wf1 c this that] show ?thesis .
    next
      case False
      with st1 that show ?thesis by (simp add: st1_def)
    qed
    show "newNodes e2 cid = Some (Some c)"
    proof (cases "id_truthy prev")
      case True
      with st1 have "removePrevReference cid path c (the prev) (e1, orph) = (e2, o2)" by (simp add: st1_def)
      from removePrevReference_facts(3) [OF wf1 c this] show ?thesis .
    next
      case False
      with st1 c show ?thesis by (simp add: st1_def)
    qed
  qed
  from x2 have wf2: "editor_wf base e2" by (rule extends_wf)
  have "mergeReferenceEdit edit (ed, orph) =
      (case ensureNewSnapshot e1 cid of
         (container, ed1) \<Rightarrow>
           (let st1 = (if id_truthy prev
                       then removePrevReference cid path container (the prev) (ed1, orph)
                       else (ed1, orph))
            in if id_truthy next
               then addNextReference cid path container (the next) st1
               else st1))"
    by (simp add: mergeReferenceEdit_def edit Let_def e1_def target_def)
  also have "\<dots> = (if id_truthy next then addNextReference cid path c (the next) st1 else st1)"
    by (simp add: ensure_again [OF c] st1_def)
  finally have res: "mergeReferenceEdit edit (ed, orph) =
      (if id_truthy next then addNextReference cid path c (the next) (e2, o2) else (e2, o2))"
    by (simp add: st1)
  have x3: "extends base e2 ed'" and u3: "unreferenced e2 o2 \<Longrightarrow> unreferenced ed' orph'"
  proof -
    show "extends base e2 ed'"
    proof (cases "id_truthy next")
      case True
      with res r have "addNextReference cid path c (the next) (e2, o2) = (ed', orph')" by simp
      from addNextReference_facts(1) [OF wf2 c2 this] show ?thesis .
    next
      case False
      with res r wf2 show ?thesis by (simp add: extends_refl)
    qed
    show "unreferenced ed' orph'" if "unreferenced e2 o2"
    proof (cases "id_truthy next")
      case True
      with res r have "addNextReference cid path c (the next) (e2, o2) = (ed', orph')" by simp
      from addNextReference_facts(2) [OF wf2 c2 this that] show ?thesis .
    next
      case False
      with res r that show ?thesis by simp
    qed
  qed
  show "extends base ed ed'" by (rule extends_trans [OF extends_trans [OF x1 x2] x3])
  show "unreferenced ed' orph'" if "unreferenced ed orph"
  proof -
    from that u1 have "unreferenced e1 orph" by simp
    then have "unreferenced e2 o2" by (rule u2)
    then show ?thesis by (rule u3)
  qed
qed

lemma mergeReferenceEdits_facts_aux:
  "editor_wf base ed \<Longrightarrow> fold mergeReferenceEdit edits (ed, orph) = (ed', orph') \<Longrightarrow>
     extends base ed ed' \<and> (unreferenced ed orph \<longrightarrow> unreferenced ed' orph')"
proof (induction edits arbitrary: ed orph)
  case Nil
  then show ?case by (simp add: extends_refl)
next
  case (Cons edit edits)
  obtain e1 o1 where s: "mergeReferenceEdit edit (ed, orph) = (e1, o1)"
    by (cases "mergeReferenceEdit edit (ed, orph)")
  note f = mergeReferenceEdit_facts [OF Cons.prems(1) s]
  from Cons.prems(2) s have "fold mergeReferenceEdit edits (e1, o1) = (ed', orph')" by simp
  from Cons.IH [OF extends_wf [OF f(1)] this]
  have i: "extends base e1 ed'" "unreferenced e1 o1 \<longrightarrow> unreferenced ed' orph'" by simp_all
  have "extends base ed ed'" by (rule extends_trans [OF f(1) i(1)])
  moreover have "unreferenced ed orph \<longrightarrow> unreferenced ed' orph'" using f(2) i(2) by blast
  ultimately show ?case by simp
qed

lemma mergeReferenceEdits_facts:
  assumes "editor_wf base ed" "mergeReferenceEdits ed edits = (ed', orph)"
  shows "extends base ed ed'" and "unreferenced ed' orph"
  using mergeReferenceEdits_facts_aux [OF assms(1) assms(2) [unfolded mergeReferenceEdits_def]]
  by (simp_all add: unreferenced_def)


subsection \<open>Phase 3 changes values only\<close>

lemma republishes_refl: "editor_wf base ed \<Longrightarrow> republishes base ed ed"
  by (simp add: republishes_def keeps_refl)

lemma republishes_trans:
  assumes "republishes base ed ed'" "republishes base ed' ed''"
  shows "republishes base ed ed''"
proof -
  from assms have "keeps base ed ed''" unfolding republishes_def using keeps_trans by blast
  with assms show ?thesis by (simp add: republishes_def)
qed

lemma republishes_wf: "republishes base ed ed' \<Longrightarrow> editor_wf base ed'"
  by (auto simp: republishes_def dest: keeps_wf)

lemma republishes_extends: "republishes base ed ed' \<Longrightarrow> extends base ed ed'"
  by (simp add: republishes_def extends_def symmetric_iff)

lemma rebuildReference_republishes:
  assumes wf: "editor_wf base ed"
  shows "republishes base ed (fst (rebuildReference sn ref (ed, queue)))"
proof -
  obtain i path where ref: "ref = (i, path)" by (cases ref)
  show ?thesis
  proof (cases path)
    case None
    with ref wf show ?thesis by (simp add: rebuildReference_def republishes_refl)
  next
    case (Some p)
    define e1 where "e1 = setValue ed i p (node (store ed sn)) False"
    have "republishes base ed e1"
      unfolding republishes_def e1_def
      by (simp add: setValue_keeps [OF wf] setValue_refs [OF wf] setValue_ids)
    moreover have "fst (rebuildReference sn ref (ed, queue)) = e1
        \<or> fst (rebuildReference sn ref (ed, queue)) = e1\<lparr>rebuiltNodeIds := set_add i (rebuiltNodeIds e1)\<rparr>"
      by (simp add: rebuildReference_def ref Some Let_def e1_def)
    ultimately show ?thesis by (auto simp: republishes_def)
  qed
qed

lemma rebuildReferences_republishes:
  "editor_wf base ed \<Longrightarrow> republishes base ed (fst (fold (rebuildReference sn) refs (ed, queue)))"
proof (induction refs arbitrary: ed queue)
  case Nil
  then show ?case by (simp add: republishes_refl)
next
  case (Cons ref refs)
  obtain e1 q1 where s: "rebuildReference sn ref (ed, queue) = (e1, q1)"
    by (cases "rebuildReference sn ref (ed, queue)")
  from rebuildReference_republishes [OF Cons.prems, of sn ref queue] s
  have r1: "republishes base ed e1" by simp
  from Cons.IH [OF republishes_wf [OF r1], of q1] have "republishes base e1 (fst (fold (rebuildReference sn) refs (e1, q1)))" .
  with r1 s show ?case by (simp add: republishes_trans)
qed

lemma rebuildStep_republishes:
  assumes "editor_wf base ed"
  shows "republishes base ed (fst (rebuildStep nodeId (ed, queue)))"
  using assms
  by (simp add: rebuildStep_def republishes_refl rebuildReferences_republishes split: option.splits)

lemmas rebuildQueue_induct = rebuildQueue.raw_induct [rotated 1, consumes 1, case_names step]

lemma rebuildQueue_republishes_aux:
  assumes "rebuildQueue st = Some ed'"
  shows "republishes base ed0 (fst st) \<longrightarrow> republishes base ed0 ed'"
  using assms
proof (induction rule: rebuildQueue_induct)
  case (step rq st ed')
  obtain ed queue where st: "st = (ed, queue)" by (cases st)
  show ?case
  proof (cases queue)
    case Nil
    with step.hyps st show ?thesis by auto
  next
    case (Cons nodeId rest)
    from step.hyps st Cons have "rq (rebuildStep nodeId (ed, rest)) = Some ed'" by simp
    from step.IH [OF this]
    have "republishes base ed0 (fst (rebuildStep nodeId (ed, rest))) \<longrightarrow> republishes base ed0 ed'" .
    moreover have "republishes base ed0 (fst (rebuildStep nodeId (ed, rest)))" if "republishes base ed0 (fst st)"
    proof -
      from that st have r: "republishes base ed0 ed" by simp
      from rebuildStep_republishes [OF republishes_wf [OF r]] r show ?thesis
        by (blast intro: republishes_trans)
    qed
    ultimately show ?thesis by blast
  qed
qed

lemma rebuildInboundReferences_republishes:
  assumes "rebuildInboundReferences ed = Some ed'" "editor_wf base ed"
  shows "republishes base ed ed'"
proof -
  let ?e = "ed\<lparr>rebuiltNodeIds := addToSet (rebuiltNodeIds ed) (editedNodeIds ed)\<rparr>"
  from assms(2) have "republishes base ed ?e" by (simp add: republishes_def keeps_refl)
  with rebuildQueue_republishes_aux [OF assms(1) [unfolded rebuildInboundReferences_def], of base ed]
  show ?thesis by simp
qed

subsection \<open>Phase 4: removing a node and its outbound references\<close>

lemma tombstone_wf:
  assumes "editor_wf base ed"
  shows "editor_wf base (ed\<lparr>newNodes := (newNodes ed)(x := Some None)\<rparr>)"
  using assms unfolding editor_wf_def by (auto split: if_splits)

lemma tombstone_keeps:
  assumes "editor_wf base ed"
  shows "keeps base ed (ed\<lparr>newNodes := (newNodes ed)(x := Some None), editedNodeIds := e\<rparr>)"
proof -
  have "{j. ((newNodes ed)(x := Some None)) j \<noteq> None} = insert x {j. newNodes ed j \<noteq> None}"
    by auto
  with tombstone_wf [OF assms, of x] show ?thesis by (simp add: keeps_def)
qed

lemma tombstone_refs:
  "refs_of d (ed\<lparr>newNodes := (newNodes ed)(x := Some None), editedNodeIds := e\<rparr>) j =
     (if j = x then [] else refs_of d ed j)"
  by (simp add: refs_of_def refs_at_def getSnapshot_def cong: option.case_cong)

lemma removeOrphanReference_facts:
  assumes wf: "editor_wf base ed"
    and r: "removeOrphanReference x (i, path) (ed, queue) = (ed', queue')"
  shows "keeps base ed ed'"
    and "refs_of Outbound ed' j = refs_of Outbound ed j"
    and "refs_of Inbound ed' j = (if j = i then remove1 (x, path) (refs_of Inbound ed j) else refs_of Inbound ed j)"
    and "queue' = (if remove1 (x, path) (refs_of Inbound ed i) = [] then i # queue else queue)"
proof -
  obtain a ed1 where en: "ensureNewSnapshot ed i = (a, ed1)" by (cases "ensureNewSnapshot ed i")
  have k1: "keeps base ed ed1" by (rule ensure_keeps [OF wf en])
  then have wf1: "editor_wf base ed1" by (rule keeps_wf)
  have st: "newNodes ed1 i = Some (Some a)" by (rule ensure_staged [OF en])
  have r1: "refs_of d ed1 j = refs_of d ed j" for d j by (rule ensure_refs [OF wf en])
  from r en have ed': "ed' = modify a (removeNodeReference Inbound x path) ed1"
    and q: "queue' = (if removeNodeReference_result Inbound x path (store ed1 a) then i # queue else queue)"
    by (auto simp: removeOrphanReference_def)
  from modify_keeps [OF wf1 st] k1 show "keeps base ed ed'" unfolding ed' by (blast intro: keeps_trans)
  have m: "refs_of d ed' j = (if j = i \<and> d = Inbound then remove1 (x, path) (refs_of d ed1 j) else refs_of d ed1 j)" for d j
    unfolding ed' by (rule modify_references [OF wf1 st]) (rule remove_spec)
  from m [of Outbound j] r1 show "refs_of Outbound ed' j = refs_of Outbound ed j" by simp
  from m [of Inbound j] r1
  show "refs_of Inbound ed' j = (if j = i then remove1 (x, path) (refs_of Inbound ed j) else refs_of Inbound ed j)"
    by simp
  from staged_refs [OF st, of Inbound] r1 [of Inbound i]
  have "ref_list (references Inbound (store ed1 a)) = refs_of Inbound ed i" by simp
  with q show "queue' = (if remove1 (x, path) (refs_of Inbound ed i) = [] then i # queue else queue)"
    by (simp add: remove_result)
qed

lemma removeOrphanReferences_keeps:
  "editor_wf base ed \<Longrightarrow> keeps base ed (fst (fold (removeOrphanReference x) refs (ed, queue)))"
proof (induction refs arbitrary: ed queue)
  case Nil
  then show ?case by (simp add: keeps_refl)
next
  case (Cons ref refs)
  obtain i path where ref: "ref = (i, path)" by (cases ref)
  obtain e1 q1 where s: "removeOrphanReference x (i, path) (ed, queue) = (e1, q1)"
    by (cases "removeOrphanReference x (i, path) (ed, queue)")
  from removeOrphanReference_facts(1) [OF Cons.prems s] have k1: "keeps base ed e1" .
  from Cons.IH [OF keeps_wf [OF k1], of q1] have "keeps base e1 (fst (fold (removeOrphanReference x) refs (e1, q1)))" .
  with k1 s ref show ?case by (simp add: keeps_trans)
qed

lemma removeOrphanStep_keeps:
  assumes wf: "editor_wf base ed"
  shows "keeps base ed (fst (removeOrphanStep nodeId (ed, queue)))"
proof (cases "getSnapshot ed nodeId")
  case None
  with wf show ?thesis by (simp add: removeOrphanStep_def keeps_refl)
next
  case (Some n)
  let ?e1 = "ed\<lparr>newNodes := (newNodes ed)(nodeId := Some None),
                 editedNodeIds := set_add nodeId (editedNodeIds ed)\<rparr>"
  have k1: "keeps base ed ?e1" by (rule tombstone_keeps [OF wf])
  show ?thesis
  proof (cases "outbound (store ed n)")
    case None
    with Some k1 show ?thesis by (simp add: removeOrphanStep_def Let_def)
  next
    case (Some refs)
    from removeOrphanReferences_keeps [OF keeps_wf [OF k1], of nodeId refs queue] k1
    have "keeps base ed (fst (fold (removeOrphanReference nodeId) refs (?e1, queue)))"
      by (blast intro: keeps_trans)
    with Some \<open>getSnapshot ed nodeId = Some n\<close> show ?thesis
      by (simp add: removeOrphanStep_def Let_def)
  qed
qed

lemmas removeOrphanQueue_induct = removeOrphanQueue.raw_induct [rotated 1, consumes 1, case_names step]

lemma removeOrphanQueue_keeps_aux:
  assumes "removeOrphanQueue st = Some ed'"
  shows "keeps base ed0 (fst st) \<longrightarrow> keeps base ed0 ed'"
  using assms
proof (induction rule: removeOrphanQueue_induct)
  case (step rq st ed')
  obtain ed queue where st: "st = (ed, queue)" by (cases st)
  show ?case
  proof (cases queue)
    case Nil
    with step.hyps st show ?thesis by auto
  next
    case (Cons nodeId rest)
    from step.hyps st Cons have "rq (removeOrphanStep nodeId (ed, rest)) = Some ed'" by simp
    from step.IH [OF this]
    have "keeps base ed0 (fst (removeOrphanStep nodeId (ed, rest))) \<longrightarrow> keeps base ed0 ed'" .
    moreover have "keeps base ed0 (fst (removeOrphanStep nodeId (ed, rest)))" if "keeps base ed0 (fst st)"
    proof -
      from that st have r: "keeps base ed0 ed" by simp
      from removeOrphanStep_keeps [OF keeps_wf [OF r]] r show ?thesis
        by (blast intro: keeps_trans)
    qed
    ultimately show ?thesis by blast
  qed
qed

lemma removeOrphanedNodes_keeps:
  assumes "removeOrphanedNodes ed ids = Some ed'" "editor_wf base ed"
  shows "keeps base ed ed'"
  using removeOrphanQueue_keeps_aux [OF assms(1) [unfolded removeOrphanedNodes_def], of base ed]
    keeps_refl [OF assms(2)] by simp


text \<open>
  While the outbound references of the removed node \<open>x\<close> are gone through, the references
  between the other nodes stay symmetric, and the inbound references from \<open>x\<close> that are
  left are those of the outbound references still to come.
\<close>

lemma removeOrphanReferences_symmetric:
  assumes "editor_wf base ed"
    and "\<forall>h t p. h \<noteq> x \<longrightarrow> count_list (refs_of Outbound ed h) (t, p) = count_list (refs_of Inbound ed t) (h, p)"
    and "\<forall>t p. count_list (refs_of Inbound ed t) (x, p) = count_list refs (t, p)"
    and "refs_of Outbound ed x = []"
    and "unreferenced ed queue"
    and "fold (removeOrphanReference x) refs (ed, queue) = (ed', queue')"
  shows "symmetric ed' \<and> unreferenced ed' queue'"
  using assms
proof (induction refs arbitrary: ed queue)
  case Nil
  then have "ed' = ed" "queue' = queue" by simp_all
  moreover have "symmetric ed"
    unfolding symmetric_iff
  proof (intro allI)
    fix h t p
    show "count_list (refs_of Outbound ed h) (t, p) = count_list (refs_of Inbound ed t) (h, p)"
      using Nil.prems(2-4) by (cases "h = x") simp_all
  qed
  ultimately show ?case using Nil.prems(5) by simp
next
  case (Cons ref refs)
  obtain i path where ref: "ref = (i, path)" by (cases ref)
  obtain e1 q1 where s: "removeOrphanReference x (i, path) (ed, queue) = (e1, q1)"
    by (cases "removeOrphanReference x (i, path) (ed, queue)")
  note f = removeOrphanReference_facts [OF Cons.prems(1) s]
  have wf1: "editor_wf base e1" by (rule keeps_wf [OF f(1)])
  have a: "\<forall>h t p. h \<noteq> x \<longrightarrow> count_list (refs_of Outbound e1 h) (t, p) = count_list (refs_of Inbound e1 t) (h, p)"
  proof (intro allI impI)
    fix h t p assume h: "h \<noteq> x"
    with Cons.prems(2) have "count_list (refs_of Outbound ed h) (t, p) = count_list (refs_of Inbound ed t) (h, p)"
      by blast
    with h show "count_list (refs_of Outbound e1 h) (t, p) = count_list (refs_of Inbound e1 t) (h, p)"
      by (simp add: f(2) f(3) count_list_remove1)
  qed
  have b: "\<forall>t p. count_list (refs_of Inbound e1 t) (x, p) = count_list refs (t, p)"
  proof (intro allI)
    fix t p
    from Cons.prems(3) ref
    have "count_list (refs_of Inbound ed t) (x, p) = count_list ((i, path) # refs) (t, p)" by blast
    then show "count_list (refs_of Inbound e1 t) (x, p) = count_list refs (t, p)"
      by (auto simp: f(3) count_list_remove1)
  qed
  have c: "refs_of Outbound e1 x = []" using Cons.prems(4) by (simp add: f(2))
  have d: "unreferenced e1 q1"
    unfolding unreferenced_def
  proof
    fix y assume y: "y \<in> set q1"
    show "refs_of Inbound e1 y = []"
    proof (cases "y \<in> set queue")
      case True
      with Cons.prems(5) have "refs_of Inbound ed y = []" by (simp add: unreferenced_def)
      then show ?thesis by (cases "y = i") (simp_all add: f(3))
    next
      case False
      with y f(4) have "y = i" "remove1 (x, path) (refs_of Inbound ed i) = []"
        by (auto split: if_splits)
      then show ?thesis by (simp add: f(3))
    qed
  qed
  from Cons.prems(6) s ref have "fold (removeOrphanReference x) refs (e1, q1) = (ed', queue')" by simp
  from Cons.IH [OF wf1 a b c d this] show ?case .
qed

lemma removeOrphanStep_symmetric:
  assumes wf: "editor_wf base ed" and sym: "symmetric ed" and u: "unreferenced ed (nodeId # queue)"
    and r: "removeOrphanStep nodeId (ed, queue) = (ed', queue')"
  shows "symmetric ed' \<and> unreferenced ed' queue'"
proof (cases "getSnapshot ed nodeId")
  case None
  with r have "ed' = ed" "queue' = queue" by (simp_all add: removeOrphanStep_def)
  with sym u show ?thesis by (simp add: unreferenced_def)
next
  case (Some n)
  define e1 where "e1 = ed\<lparr>newNodes := (newNodes ed)(nodeId := Some None),
                 editedNodeIds := set_add nodeId (editedNodeIds ed)\<rparr>"
  have wf1: "editor_wf base e1" unfolding e1_def by (rule keeps_wf [OF tombstone_keeps [OF wf]])
  have t: "refs_of d e1 j = (if j = nodeId then [] else refs_of d ed j)" for d j
    unfolding e1_def by (rule tombstone_refs)
  from u have inn: "refs_of Inbound ed nodeId = []" by (simp add: unreferenced_def)
  from sym have s: "count_list (refs_of Outbound ed h) (t, p) = count_list (refs_of Inbound ed t) (h, p)" for h t p
    by (simp add: symmetric_iff)
  have out: "refs_of Outbound ed nodeId = ref_list (outbound (store ed n))"
    using Some by (simp add: refs_of_def refs_at_def)
  have a: "\<forall>h t p. h \<noteq> nodeId \<longrightarrow> count_list (refs_of Outbound e1 h) (t, p) = count_list (refs_of Inbound e1 t) (h, p)"
  proof (intro allI impI)
    fix h t p assume h: "h \<noteq> nodeId"
    show "count_list (refs_of Outbound e1 h) (t, p) = count_list (refs_of Inbound e1 t) (h, p)"
      using s [of h t p] h inn by (cases "t = nodeId") (simp_all add: t)
  qed
  have b: "\<forall>t p. count_list (refs_of Inbound e1 t) (nodeId, p) = count_list (ref_list (outbound (store ed n))) (t, p)"
  proof (intro allI)
    fix t p
    show "count_list (refs_of Inbound e1 t) (nodeId, p) = count_list (ref_list (outbound (store ed n))) (t, p)"
      using s [of nodeId t p] inn out by (cases "t = nodeId") (simp_all add: t)
  qed
  have c: "refs_of Outbound e1 nodeId = []" by (simp add: t)
  have d: "unreferenced e1 queue" using u by (simp add: unreferenced_def t)
  show ?thesis
  proof (cases "outbound (store ed n)")
    case None
    with Some r have res: "ed' = e1" "queue' = queue" by (simp_all add: removeOrphanStep_def Let_def e1_def)
    have "fold (removeOrphanReference nodeId) [] (e1, queue) = (ed', queue')" by (simp add: res)
    from removeOrphanReferences_symmetric [OF wf1 a _ c d this] b None show ?thesis by simp
  next
    case (Some refs)
    with \<open>getSnapshot ed nodeId = Some n\<close> r
    have "fold (removeOrphanReference nodeId) refs (e1, queue) = (ed', queue')"
      by (simp add: removeOrphanStep_def Let_def e1_def)
    from removeOrphanReferences_symmetric [OF wf1 a _ c d this] b Some show ?thesis by simp
  qed
qed

lemma removeOrphanQueue_symmetric_aux:
  assumes "removeOrphanQueue st = Some ed'"
  shows "editor_wf base (fst st) \<and> symmetric (fst st) \<and> unreferenced (fst st) (snd st) \<longrightarrow> symmetric ed'"
  using assms
proof (induction rule: removeOrphanQueue_induct)
  case (step rq st ed')
  obtain ed queue where st: "st = (ed, queue)" by (cases st)
  show ?case
  proof (cases queue)
    case Nil
    with step.hyps st show ?thesis by auto
  next
    case (Cons nodeId rest)
    obtain e1 q1 where s: "removeOrphanStep nodeId (ed, rest) = (e1, q1)"
      by (cases "removeOrphanStep nodeId (ed, rest)")
    from step.hyps st Cons s have "rq (e1, q1) = Some ed'" by simp
    from step.IH [OF this]
    have ih: "editor_wf base e1 \<and> symmetric e1 \<and> unreferenced e1 q1 \<longrightarrow> symmetric ed'" by simp
    show ?thesis
    proof
      assume a: "editor_wf base (fst st) \<and> symmetric (fst st) \<and> unreferenced (fst st) (snd st)"
      with st Cons have wf: "editor_wf base ed" and sym: "symmetric ed" and u: "unreferenced ed (nodeId # rest)"
        by simp_all
      from removeOrphanStep_keeps [OF wf, of nodeId rest] s have "editor_wf base e1"
        by (auto dest: keeps_wf)
      moreover from removeOrphanStep_symmetric [OF wf sym u s] have "symmetric e1 \<and> unreferenced e1 q1" .
      ultimately show "symmetric ed'" using ih by blast
    qed
  qed
qed

lemma removeOrphanedNodes_extends:
  assumes r: "removeOrphanedNodes ed ids = Some ed'" and wf: "editor_wf base ed"
    and u: "unreferenced ed ids"
  shows "extends base ed ed'"
proof -
  from u have "unreferenced ed (rev ids)" by (simp add: unreferenced_def)
  with removeOrphanQueue_symmetric_aux [OF r [unfolded removeOrphanedNodes_def], of base] wf
  have "symmetric ed \<longrightarrow> symmetric ed'" by simp
  with removeOrphanedNodes_keeps [OF r wf] show ?thesis by (simp add: extends_def)
qed

subsection \<open>A merge, a sequence of merges, the commit\<close>

lemma unreferenced_republishes:
  "republishes base ed ed' \<Longrightarrow> unreferenced ed ids \<Longrightarrow> unreferenced ed' ids"
  by (simp add: republishes_def unreferenced_def)

lemma mergePayload_extends:
  assumes m: "mergePayload ed query payload = Some ed'" and wf: "editor_wf base ed"
  shows "extends base ed ed'"
proof -
  from m obtain edits ed1 where p1: "mergePayloadValues ed query payload = Some (edits, ed1)"
    by (auto simp: mergePayload_def split: option.splits)
  obtain ed2 orph where p2: "mergeReferenceEdits ed1 edits = (ed2, orph)"
    by (cases "mergeReferenceEdits ed1 edits")
  from m p1 p2 obtain ed3 where p3: "rebuildInboundReferences ed2 = Some ed3"
    by (auto simp: mergePayload_def split: option.splits)
  from m p1 p2 p3 have p4: "removeOrphanedNodes ed3 orph = Some ed'"
    by (simp add: mergePayload_def)
  have x1: "extends base ed ed1" by (rule mergePayloadValues_extends [OF p1 wf])
  note f2 = mergeReferenceEdits_facts [OF extends_wf [OF x1] p2]
  have r3: "republishes base ed2 ed3"
    by (rule rebuildInboundReferences_republishes [OF p3 extends_wf [OF f2(1)]])
  have u3: "unreferenced ed3 orph" by (rule unreferenced_republishes [OF r3 f2(2)])
  have x4: "extends base ed3 ed'"
    by (rule removeOrphanedNodes_extends [OF p4 republishes_wf [OF r3] u3])
  from x1 f2(1) have "extends base ed ed2" by (rule extends_trans)
  from this republishes_extends [OF r3] have "extends base ed ed3" by (rule extends_trans)
  from this x4 show ?thesis by (rule extends_trans)
qed

lemma mergePayloads_extends:
  "mergePayloads ed merges = Some ed' \<Longrightarrow> editor_wf base ed \<Longrightarrow> extends base ed ed'"
proof (induction merges arbitrary: ed)
  case Nil
  then show ?case by (simp add: extends_refl)
next
  case (Cons m merges)
  obtain query payload where m: "m = (query, payload)" by (cases m)
  from Cons.prems(1) m obtain ed1 where s: "mergePayload ed query payload = Some ed1"
    and r: "mergePayloads ed1 merges = Some ed'"
    by (auto split: option.splits)
  from mergePayload_extends [OF s Cons.prems(2)] have x: "extends base ed ed1" .
  from Cons.IH [OF r extends_wf [OF x]] x show ?case by (blast intro: extends_trans)
qed

lemma commit_snapshot: "snapshot (commit ed) = getSnapshot ed"
  by (simp add: commit_def getSnapshot_def fun_eq_iff split: option.splits)

lemma new_editor_wf:
  assumes "\<forall>i a. par i = Some a \<longrightarrow> a < fr"
  shows "editor_wf fr (new_editor cfg st fr par)"
  using assms by (simp add: editor_wf_def new_editor_def)

lemma new_editor_getSnapshot: "getSnapshot (new_editor cfg st fr par) = par"
  by (simp add: new_editor_def getSnapshot_def fun_eq_iff)

lemma new_editor_symmetric: "symmetric (new_editor cfg st fr par) = symmetric_at st par"
  by (simp add: symmetric_def new_editor_getSnapshot) (simp add: new_editor_def)

lemma new_editor_fields [simp]:
  "store (new_editor cfg st fr par) = st" "fresh (new_editor cfg st fr par) = fr"
  "parent (new_editor cfg st fr par) = par" "config (new_editor cfg st fr par) = cfg"
  "editedNodeIds (new_editor cfg st fr par) = []" "rebuiltNodeIds (new_editor cfg st fr par) = []"
  "newNodes (new_editor cfg st fr par) = (\<lambda>i. None)"
  by (simp_all add: new_editor_def)

section \<open>The parent snapshot and its records\<close>

text \<open>
  The records of the parent snapshot are never written.  An editor is opened over a parent
  snapshot whose records are in the store (their addresses lie below the next free
  address).  Whatever payloads are merged, once the merges have returned the parent snapshot
  maps every id to the same record object as before, every record that existed when the
  editor was opened holds in its three fields what it held, and commit does not touch the
  store: what the editor writes to a record, it writes to a record that it allocated itself
  and staged in the new nodes.  This is about the records and the arrays of references, which
  are copied when a record is staged; it says nothing about writes inside a value object that
  two records share, which the value trees of this model do not have.
\<close>

lemma parent_records_never_written:
  assumes "\<forall>i a. par i = Some a \<longrightarrow> a < fr"
    and "mergePayloads (new_editor cfg st fr par) merges = Some ed'"
  shows "parent ed' = par
    \<and> (\<forall>a. a < fr \<longrightarrow> store ed' a = st a)
    \<and> (\<forall>i a. par i = Some a \<longrightarrow> parent ed' i = Some a \<and> store ed' a = st a)
    \<and> (\<forall>i a. newNodes ed' i = Some (Some a) \<longrightarrow> fr \<le> a)"
proof -
  from mergePayloads_extends [OF assms(2) new_editor_wf [OF assms(1)]]
  have k: "keeps fr (new_editor cfg st fr par) ed'" by (simp add: extends_def)
  then have "parent ed' = par" and s: "\<forall>a. a < fr \<longrightarrow> store ed' a = st a"
    and "\<forall>i a. newNodes ed' i = Some (Some a) \<longrightarrow> fr \<le> a"
    by (simp_all add: keeps_def editor_wf_def)
  moreover from this assms(1) have "\<forall>i a. par i = Some a \<longrightarrow> parent ed' i = Some a \<and> store ed' a = st a"
    by simp
  ultimately show ?thesis by simp
qed

lemma parent_records_never_written_example:
  "(case mergePayload emptyEditor parameterizedQuery fooEntityPayload of
      None \<Rightarrow> False
    | Some base \<Rightarrow>
        (case mergePayloads (reopen base) [(viewerQuery, viewerPayload)] of
           None \<Rightarrow> False
         | Some ed' \<Rightarrow>
             snapshot (commit base) ''1'' = Some 2 \<and> 2 < fresh base
             \<and> parent ed' = snapshot (commit base)
             \<and> parent ed' ''1'' = Some 2 \<and> store ed' 2 = store base 2))"
proof -
  have "mergePayload emptyEditor parameterizedQuery fooEntityPayload \<noteq> None" by code_simp
  then obtain base where b: "mergePayload emptyEditor parameterizedQuery fooEntityPayload = Some base"
    by blast
  have "(case mergePayload emptyEditor parameterizedQuery fooEntityPayload of
      None \<Rightarrow> False
    | Some base \<Rightarrow> mergePayloads (reopen base) [(viewerQuery, viewerPayload)] \<noteq> None
         \<and> snapshot (commit base) ''1'' = Some 2 \<and> 2 < fresh base)"
    by code_simp
  with b obtain ed' where e: "mergePayloads (reopen base) [(viewerQuery, viewerPayload)] = Some ed'"
    and c: "snapshot (commit base) ''1'' = Some 2" "2 < fresh base"
    by auto
  have "editor_wf 0 emptyEditor"
    unfolding emptyEditor_def by (rule new_editor_wf) (simp add: emptySnapshot_def)
  from mergePayload_extends [OF b this] have "editor_wf 0 base" by (rule extends_wf)
  then have h: "\<forall>i a. snapshot (commit base) i = Some a \<longrightarrow> a < fresh base"
    by (auto simp: commit_snapshot dest: wf_getSnapshot_lt)
  from parent_records_never_written [OF h e [unfolded reopen_def]] c
  have "parent ed' = snapshot (commit base) \<and> parent ed' ''1'' = Some 2 \<and> store ed' 2 = store base 2"
    by simp
  with b e c show ?thesis by simp
qed

text \<open>
  C3 fails for the value trees.  The parent snapshot comes from \<open>holderPayload\<close>: the
  value of \<open>H\<close> holds the inline object \<open>p\<close> with the entity \<open>F\<close> at \<open>q\<close>, so \<open>H\<close>
  has the outbound reference to \<open>F\<close> at \<open>[p, q]\<close>; \<open>E\<close> has the value
  \<open>{id: E, n: 1}\<close>.  An editor over it merges \<open>movedPayload\<close>.  The first phase stages
  \<open>F\<close> only and collects the edit that sets \<open>p\<close> of \<open>H\<close> from no entity to \<open>E\<close>.
  The second phase reads \<open>this.get(E)\<close> while \<open>E\<close> is not staged, which is the value of
  the parent's record, and \<open>_setValue\<close> puts it at \<open>p\<close> of the staged \<open>H\<close>; there was
  no previous id, so the reference of \<open>H\<close> to \<open>F\<close> at \<open>[p, q]\<close> stays.  The third phase
  follows that reference from the edited \<open>F\<close> and sets the value of \<open>F\<close> at \<open>[p, q]\<close>
  of \<open>H\<close>: the write goes through the value that was put at \<open>p\<close>, which gains the
  field \<open>q\<close>.  Here that value is a tree of its own inside the value of \<open>H\<close>.  In the
  source it is the very object of the parent's record of \<open>E\<close>, and the path setter writes
  in place where the object on the path is not the one at the same path of the parent's
  value of \<open>H\<close> (which is the old inline object): the parent's value of \<open>E\<close> gains
  \<open>q\<close>.
\<close>

theorem parent_value_written_through:
  "(case mergePayload emptyEditor viewerQuery holderPayload of
      None \<Rightarrow> False
    | Some base \<Rightarrow>
        record_of (store base) (snapshot (commit base)) ''E''
          = Some \<lparr>node = JObj [(''id'', JStr ''E''), (''n'', JNum 1)],
                  inbound = Some [(QueryRootId, Some [Key ''e''])], outbound = None\<rparr>
        \<and> refs_at Outbound (store base) (snapshot (commit base)) ''H''
            = [(''F'', Some [Key ''p'', Key ''q''])]
        \<and> (case mergePayloadValues (reopen base) viewerQuery movedPayload of
             None \<Rightarrow> False
           | Some (referenceEdits, ed1) \<Rightarrow>
               referenceEdits = [(QueryRootId, [Key ''f''], None, Some ''F''),
                                 (''H'', [Key ''p''], None, Some ''E'')]
               \<and> newNodes ed1 ''E'' = None
               \<and> getSnapshot ed1 ''E'' = parent ed1 ''E''
               \<and> (case mergeReferenceEdits ed1 referenceEdits of
                    (ed2, orphanedNodeIds) \<Rightarrow>
                      get_field (get_value ed2 ''H'') ''p'' = JObj [(''id'', JStr ''E''), (''n'', JNum 1)]
                      \<and> refs_of Inbound ed2 ''F''
                          = [(''H'', Some [Key ''p'', Key ''q'']), (QueryRootId, Some [Key ''f''])]
                      \<and> (case rebuildInboundReferences ed2 of
                           None \<Rightarrow> False
                         | Some ed3 \<Rightarrow>
                             get_field (get_value ed3 ''H'') ''p''
                               = JObj [(''id'', JStr ''E''), (''n'', JNum 1),
                                       (''q'', JObj [(''id'', JStr ''F''), (''v'', JNum 2)])]))))"
  by code_simp

section \<open>Bidirectional symmetry\<close>

text \<open>
  C2: an editor is opened over a parent snapshot whose records are in the store and whose
  references are symmetric (the empty snapshot is one).  After any sequence of merges,
  the snapshot that commit returns has symmetric references: for all \<open>h\<close>, \<open>t\<close> and
  \<open>p\<close>, the reference \<open>{t, p}\<close> occurs as often in the outbound references of \<open>h\<close> as
  \<open>{h, p}\<close> in the inbound references of \<open>t\<close>.  Its records are in the store too, so the
  same holds for the next editor that is opened over it.
\<close>

theorem commit_symmetric:
  assumes "\<forall>i a. par i = Some a \<longrightarrow> a < fr"
    and "symmetric_at st par"
    and "mergePayloads (new_editor cfg st fr par) merges = Some ed'"
  shows "symmetric_at (store ed') (snapshot (commit ed'))
    \<and> (\<forall>i a. snapshot (commit ed') i = Some a \<longrightarrow> a < fresh ed')"
proof -
  from mergePayloads_extends [OF assms(3) new_editor_wf [OF assms(1)]]
  have x: "extends fr (new_editor cfg st fr par) ed'" .
  with assms(2) have "symmetric ed'" by (simp add: extends_def new_editor_symmetric)
  then have "symmetric_at (store ed') (snapshot (commit ed'))"
    by (simp add: symmetric_def commit_snapshot)
  moreover from extends_wf [OF x] have "\<forall>i a. snapshot (commit ed') i = Some a \<longrightarrow> a < fresh ed'"
    by (auto simp: commit_snapshot dest: wf_getSnapshot_lt)
  ultimately show ?thesis by simp
qed

theorem commit_symmetric_witness:
  "(case mergePayloads emptyEditor [(parameterizedQuery, fooEntityPayload), (viewerQuery, viewerPayload)] of
      None \<Rightarrow> False
    | Some ed' \<Rightarrow> symmetric_at (store ed') (snapshot (commit ed')))"
proof -
  have "mergePayloads emptyEditor [(parameterizedQuery, fooEntityPayload), (viewerQuery, viewerPayload)] \<noteq> None"
    by code_simp
  then obtain ed' where e: "mergePayloads emptyEditor
      [(parameterizedQuery, fooEntityPayload), (viewerQuery, viewerPayload)] = Some ed'"
    by blast
  have h1: "\<forall>i a. emptySnapshot i = Some a \<longrightarrow> a < 0" by (simp add: emptySnapshot_def)
  have h2: "symmetric_at emptyStore emptySnapshot"
    by (simp add: symmetric_at_def refs_at_def emptySnapshot_def)
  from commit_symmetric [OF h1 h2 e [unfolded emptyEditor_def]] e show ?thesis by simp
qed

section \<open>Republishing does not count as an edit\<close>

lemma rebuildReference_edited:
  "editedNodeIds (fst (rebuildReference sn ref st)) = editedNodeIds (fst st)"
proof -
  obtain i path where ref: "ref = (i, path)" by (cases ref)
  obtain ed queue where st: "st = (ed, queue)" by (cases st)
  show ?thesis
    by (cases path) (simp_all add: rebuildReference_def ref st Let_def setValue_ids)
qed

lemma rebuildReferences_edited:
  "editedNodeIds (fst (fold (rebuildReference sn) refs st)) = editedNodeIds (fst st)"
  by (induction refs arbitrary: st) (simp_all add: rebuildReference_edited)

lemma rebuildStep_edited:
  "editedNodeIds (fst (rebuildStep nodeId st)) = editedNodeIds (fst st)"
  by (simp add: rebuildStep_def rebuildReferences_edited split: option.splits)

lemma rebuildQueue_edited:
  assumes "rebuildQueue st = Some ed'"
  shows "editedNodeIds ed' = editedNodeIds (fst st)"
  using assms
proof (induction rule: rebuildQueue_induct)
  case (step rq st ed')
  obtain ed queue where st: "st = (ed, queue)" by (cases st)
  show ?case
  proof (cases queue)
    case Nil
    with step.hyps st show ?thesis by auto
  next
    case (Cons nodeId rest)
    from step.hyps st Cons have "rq (rebuildStep nodeId (ed, rest)) = Some ed'" by simp
    from step.IH [OF this] st show ?thesis by (simp add: rebuildStep_edited)
  qed
qed

text \<open>
  C8: in the inbound-rebuild phase a holder is written with \<open>isEdit = false\<close>, which
  leaves the edited ids alone: the phase returns with the edited ids it started with.  A
  holder that is only republished is staged with a new value and is among the edited ids
  only if an edit or a deletion put it there.  In the scenario, the entity \<open>1\<close> that the
  parameterized node references is updated through the query \<open>{ viewer { id name } }\<close>:
  the parameterized node is staged with the updated value of the entity and marked as
  rebuilt, and the edited ids are the entity and the root, not the parameterized node.
\<close>

theorem rebuild_is_not_an_edit:
  "(rebuildInboundReferences ed = Some ed' \<longrightarrow> editedNodeIds ed' = editedNodeIds ed)
   \<and> editedNodeIds (setValue ed i path v False) = editedNodeIds ed
   \<and> (case mergePayload emptyEditor parameterizedQuery fooEntityPayload of
        None \<Rightarrow> False
      | Some base \<Rightarrow>
          (case mergePayload (reopen base) viewerQuery viewerPayload of
             None \<Rightarrow> False
           | Some ed1 \<Rightarrow>
               set (edited (commit ed1)) = {QueryRootId, ''1''}
               \<and> parameterizedId \<notin> set (edited (commit ed1))
               \<and> parameterizedId \<in> set (rebuiltNodeIds ed1)
               \<and> newNodes ed1 parameterizedId \<noteq> None
               \<and> map_option node (record_of (store ed1) (snapshot (commit ed1)) parameterizedId)
                  = Some (JObj [(''id'', JNum 1), (''name'', JStr ''Foo Bar''), (''extra'', JBool False)])
               \<and> map_option node (record_of (store ed1) (snapshot (commit ed1)) ''1'')
                  = Some (JObj [(''id'', JNum 1), (''name'', JStr ''Foo Bar''), (''extra'', JBool False)])
               \<and> map_option node (record_of (store base) (snapshot (commit base)) parameterizedId)
                  = Some (JObj [(''id'', JNum 1), (''name'', JStr ''Foo''), (''extra'', JBool False)])))"
proof -
  have a: "rebuildInboundReferences ed = Some ed' \<longrightarrow> editedNodeIds ed' = editedNodeIds ed"
    by (auto simp: rebuildInboundReferences_def dest: rebuildQueue_edited)
  have b: "editedNodeIds (setValue ed i path v False) = editedNodeIds ed"
    by (simp add: setValue_ids)
  have c: "(case mergePayload emptyEditor parameterizedQuery fooEntityPayload of
        None \<Rightarrow> False
      | Some base \<Rightarrow>
          (case mergePayload (reopen base) viewerQuery viewerPayload of
             None \<Rightarrow> False
           | Some ed1 \<Rightarrow>
               set (edited (commit ed1)) = {QueryRootId, ''1''}
               \<and> parameterizedId \<notin> set (edited (commit ed1))
               \<and> parameterizedId \<in> set (rebuiltNodeIds ed1)
               \<and> newNodes ed1 parameterizedId \<noteq> None
               \<and> map_option node (record_of (store ed1) (snapshot (commit ed1)) parameterizedId)
                  = Some (JObj [(''id'', JNum 1), (''name'', JStr ''Foo Bar''), (''extra'', JBool False)])
               \<and> map_option node (record_of (store ed1) (snapshot (commit ed1)) ''1'')
                  = Some (JObj [(''id'', JNum 1), (''name'', JStr ''Foo Bar''), (''extra'', JBool False)])
               \<and> map_option node (record_of (store base) (snapshot (commit base)) parameterizedId)
                  = Some (JObj [(''id'', JNum 1), (''name'', JStr ''Foo''), (''extra'', JBool False)])))"
    by code_simp
  from a b c show ?thesis by blast
qed

text \<open>The phase at work in the scenario: the state after the reference edits of the second
  write goes through the rebuild and comes out with the same edited ids, the parameterized
  node rebuilt.\<close>

theorem rebuild_is_not_an_edit_witness:
  "(case mergePayload emptyEditor parameterizedQuery fooEntityPayload of
      None \<Rightarrow> False
    | Some base \<Rightarrow>
        (case mergePayloadValues (reopen base) viewerQuery viewerPayload of
           None \<Rightarrow> False
         | Some (referenceEdits, ed1) \<Rightarrow>
             (case rebuildInboundReferences (fst (mergeReferenceEdits ed1 referenceEdits)) of
                None \<Rightarrow> False
              | Some ed3 \<Rightarrow>
                  editedNodeIds ed3 = editedNodeIds (fst (mergeReferenceEdits ed1 referenceEdits))
                  \<and> editedNodeIds ed3 = [''1'', QueryRootId]
                  \<and> parameterizedId \<in> set (rebuiltNodeIds ed3))))"
proof -
  have c: "(case mergePayload emptyEditor parameterizedQuery fooEntityPayload of
      None \<Rightarrow> False
    | Some base \<Rightarrow>
        (case mergePayloadValues (reopen base) viewerQuery viewerPayload of
           None \<Rightarrow> False
         | Some (referenceEdits, ed1) \<Rightarrow>
             (case rebuildInboundReferences (fst (mergeReferenceEdits ed1 referenceEdits)) of
                None \<Rightarrow> False
              | Some ed3 \<Rightarrow>
                  editedNodeIds ed3 = [''1'', QueryRootId]
                  \<and> parameterizedId \<in> set (rebuiltNodeIds ed3))))"
    by code_simp
  then obtain base edits ed1 ed3
    where "mergePayload emptyEditor parameterizedQuery fooEntityPayload = Some base"
      and "mergePayloadValues (reopen base) viewerQuery viewerPayload = Some (edits, ed1)"
      and r: "rebuildInboundReferences (fst (mergeReferenceEdits ed1 edits)) = Some ed3"
      and "editedNodeIds ed3 = [''1'', QueryRootId]" "parameterizedId \<in> set (rebuiltNodeIds ed3)"
    by (auto split: option.splits)
  moreover from rebuild_is_not_an_edit [of "fst (mergeReferenceEdits ed1 edits)" ed3] r
  have "editedNodeIds ed3 = editedNodeIds (fst (mergeReferenceEdits ed1 edits))" by blast
  ultimately show ?thesis by simp
qed

section \<open>A deleted node starts fresh\<close>



section \<open>Entity references in the payload walk\<close>

lemma id_truthy_nonempty:
  "x \<noteq> Some [] \<Longrightarrow> id_truthy x \<longleftrightarrow> x \<noteq> None"
  by (cases x) auto

text \<open>
  C7, as stated, does not hold for an entity whose id is the empty string, which the visitor
  tests with \<open>prevNodeId || nextNodeId\<close> and \<open>if (nextNodeId)\<close> and so takes for no id
  at all.  Both positions below are not parameterized.  At the first the node value is
  undefined and the payload value is an entity with the id \<open>""\<close>: the previous id is
  undefined, the next id is the empty string, they differ, and the visitor records no
  reference edit, queues nothing and lets the walk descend into the payload value; the whole
  first phase returns without a reference edit.  At the second the node value holds the
  entity \<open>""\<close> and the payload value is truthy and yields no id: the visitor does not
  queue the payload for the known entity, it lets the walk descend.
\<close>

theorem reference_edit_counterexample:
  "entityIdForNode (config emptyEditor) (JObj [(''id'', JStr '''')]) = Some ''''
   \<and> isObject (JObj [(''id'', JStr '''')])
   \<and> \<not> isObject JUndefined
   \<and> (case mergeVisitor viewerQuery QueryRootId [Key ''viewer''] (JObj [(''id'', JStr '''')]) JUndefined None
        (emptyEditor, [], []) of
        (stop, ed, queue, referenceEdits) \<Rightarrow> \<not> stop \<and> queue = [] \<and> referenceEdits = [])
   \<and> map_option fst (mergePayloadValues emptyEditor viewerQuery (JObj [(''viewer'', JObj [(''id'', JStr '''')])]))
       = Some []
   \<and> truthy (JObj [(''name'', JStr ''Foo'')])
   \<and> entityIdForNode (config emptyEditor) (JObj [(''name'', JStr ''Foo'')]) = None
   \<and> (case mergeVisitor viewerQuery QueryRootId [Key ''viewer''] (JObj [(''name'', JStr ''Foo'')])
        (JObj [(''id'', JStr '''')]) None (emptyEditor, [], []) of
        (stop, ed, queue, referenceEdits) \<Rightarrow> \<not> stop \<and> queue = [] \<and> referenceEdits = [])"
  by code_simp

text \<open>
  C7, amended: at every position that the edge map does not mark as parameterized, when
  neither entity id is the empty string.  Let \<open>prev\<close> be the entity id of the node value
  and \<open>next\<close> that of the payload value (undefined when the value is not an object), and let
  the effective next id be \<open>prev\<close> when \<open>next\<close> is undefined and the payload value is
  truthy, \<open>next\<close> otherwise.  When the node value holds an entity, the payload value yields
  no id and is truthy, the visitor records nothing, queues the payload value for a walk into
  the known entity and stops the descent.  In every case the visitor records the reference
  edit \<open>(containerId, path, prev, effective next)\<close> if the two ids differ, and none
  otherwise.
\<close>

theorem reference_edit_iff:
  assumes prev: "prev = (if isObject nodeValue then entityIdForNode (config ed) nodeValue else None)"
    and "next": "next = (if isObject payloadValue then entityIdForNode (config ed) payloadValue else None)"
    and ids: "prev \<noteq> Some [] \<and> next \<noteq> Some []"
    and eff: "effective = (if next = None \<and> truthy payloadValue then prev else next)"
  shows "(prev \<noteq> None \<and> next = None \<and> truthy payloadValue \<longrightarrow>
            mergeVisitor query containerId path payloadValue nodeValue None (ed, queue, referenceEdits)
              = (True, (ed, (the prev, payloadValue, False) # queue, referenceEdits)))
       \<and> snd (snd (snd (mergeVisitor query containerId path payloadValue nodeValue None (ed, queue, referenceEdits))))
           = (if prev \<noteq> effective then referenceEdits @ [(containerId, path, prev, effective)]
              else referenceEdits)"
proof -
  from ids have p: "id_truthy prev \<longleftrightarrow> prev \<noteq> None"
    by (intro id_truthy_nonempty) simp
  from ids have n: "id_truthy next \<longleftrightarrow> next \<noteq> None"
    by (intro id_truthy_nonempty) simp
  from ids eff have e: "id_truthy effective \<longleftrightarrow> effective \<noteq> None"
    by (intro id_truthy_nonempty) auto
  have unfold: "mergeVisitor query containerId path payloadValue nodeValue None (ed, queue, referenceEdits) =
     (if prev \<noteq> None \<or> next \<noteq> None then
        (True, (ed,
           (if effective \<noteq> None then (the effective, payloadValue, False) # queue else queue),
           (if prev \<noteq> effective then referenceEdits @ [(containerId, path, prev, effective)]
            else referenceEdits)))
      else if isArray payloadValue then
        (if truthy nodeValue \<and> js_length nodeValue = js_length payloadValue
         then (False, (ed, queue, referenceEdits))
         else (False, (setValue ed containerId path
                 (case nodeValue of
                    JArr xs \<Rightarrow> JArr (take (nat (the (js_length payloadValue))) xs)
                  | _ \<Rightarrow> JArr []) True, queue, referenceEdits)))
      else if isScalar payloadValue \<and> payloadValue \<noteq> nodeValue then
        (False, (setValue ed containerId path payloadValue True, queue, referenceEdits))
      else (False, (ed, queue, referenceEdits)))"
    unfolding mergeVisitor_def Let_def prod.case option.case
      prev [symmetric] "next" [symmetric] p n
    using e eff n by (simp del: truthy.simps isArray.simps isScalar.simps js_length.simps)
  show ?thesis
  proof (cases "prev \<noteq> None \<or> next \<noteq> None")
    case True
    then show ?thesis unfolding unfold using eff by auto
  next
    case False
    with eff have "prev = effective" by simp
    with False show ?thesis unfolding unfold by simp
  qed
qed

theorem reference_edit_iff_witness:
  "entityIdForNode (config emptyEditor) (JObj [(''id'', JNum 1), (''name'', JStr ''Foo'')]) = Some ''1''
   \<and> entityIdForNode (config emptyEditor) (JObj [(''name'', JStr ''Foo Bar'')]) = None
   \<and> mergeVisitor viewerQuery QueryRootId [Key ''viewer''] (JObj [(''name'', JStr ''Foo Bar'')])
        (JObj [(''id'', JNum 1), (''name'', JStr ''Foo'')]) None (emptyEditor, [], [])
      = (True, (emptyEditor, [(''1'', JObj [(''name'', JStr ''Foo Bar'')], False)], []))
   \<and> snd (snd (snd (mergeVisitor viewerQuery QueryRootId [Key ''viewer''] (JObj [(''id'', JNum 2)])
        (JObj [(''id'', JNum 1), (''name'', JStr ''Foo'')]) None (emptyEditor, [], []))))
      = [(QueryRootId, [Key ''viewer''], Some ''1'', Some ''2'')]"
proof -
  have e1: "entityIdForNode (config emptyEditor) (JObj [(''id'', JNum 1), (''name'', JStr ''Foo'')]) = Some ''1''"
    by code_simp
  have e2: "entityIdForNode (config emptyEditor) (JObj [(''name'', JStr ''Foo Bar'')]) = None"
    by code_simp
  have e3: "entityIdForNode (config emptyEditor) (JObj [(''id'', JNum 2)]) = Some ''2''"
    by code_simp
  have a: "mergeVisitor viewerQuery QueryRootId [Key ''viewer''] (JObj [(''name'', JStr ''Foo Bar'')])
        (JObj [(''id'', JNum 1), (''name'', JStr ''Foo'')]) None (emptyEditor, [], [])
      = (True, (emptyEditor, [(''1'', JObj [(''name'', JStr ''Foo Bar'')], False)], []))"
    using reference_edit_iff [OF refl refl _ refl, of "JObj [(''id'', JNum 1), (''name'', JStr ''Foo'')]"
      emptyEditor "JObj [(''name'', JStr ''Foo Bar'')]" viewerQuery QueryRootId "[Key ''viewer'']" "[]" "[]"]
    by (simp add: e1 e2)
  have b: "snd (snd (snd (mergeVisitor viewerQuery QueryRootId [Key ''viewer''] (JObj [(''id'', JNum 2)])
        (JObj [(''id'', JNum 1), (''name'', JStr ''Foo'')]) None (emptyEditor, [], []))))
      = [(QueryRootId, [Key ''viewer''], Some ''1'', Some ''2'')]"
    using reference_edit_iff [OF refl refl _ refl, of "JObj [(''id'', JNum 1), (''name'', JStr ''Foo'')]"
      emptyEditor "JObj [(''id'', JNum 2)]" viewerQuery QueryRootId "[Key ''viewer'']" "[]" "[]"]
    by (simp add: e1 e3)
  from e1 e2 a b show ?thesis by simp
qed

section \<open>The rebuild walk terminates\<close>

lemma rebuildQueue_Nil: "rebuildQueue (ed, []) = Some ed"
  by (subst rebuildQueue.simps) simp

lemma rebuildQueue_Cons: "rebuildQueue (ed, x # rest) = rebuildQueue (rebuildStep x (ed, rest))"
  by (subst rebuildQueue.simps) simp

lemma rebuildPops_Nil: "rebuildPops (ed, []) = Some []"
  by (subst rebuildPops.simps) simp

lemma rebuildPops_Cons:
  "rebuildPops (ed, x # rest) = Option.bind (rebuildPops (rebuildStep x (ed, rest))) (\<lambda>pops. Some (x # pops))"
  by (subst rebuildPops.simps) simp

lemma holders_same:
  assumes "\<And>j. refs_of Inbound ed' j = refs_of Inbound ed j"
  shows "holders ed' = holders ed"
  by (simp add: holders_def assms)

lemma finite_holders:
  assumes "finite (dom (parent ed))" "finite {i. newNodes ed i \<noteq> None}"
  shows "finite (holders ed)"
proof -
  let ?D = "dom (parent ed) \<union> {i. newNodes ed i \<noteq> None}"
  have "holders ed \<subseteq> (\<Union>i \<in> ?D. fst ` set (refs_of Inbound ed i))"
  proof
    fix h assume "h \<in> holders ed"
    then obtain i p where m: "(h, p) \<in> set (refs_of Inbound ed i)" by (auto simp: holders_def)
    then have "getSnapshot ed i \<noteq> None" by (cases "getSnapshot ed i") (auto simp: refs_of_def refs_at_def)
    then have "i \<in> ?D" by (auto simp: getSnapshot_def split: option.splits)
    with m show "h \<in> (\<Union>i \<in> ?D. fst ` set (refs_of Inbound ed i))" by force
  qed
  moreover have "finite (\<Union>i \<in> ?D. fst ` set (refs_of Inbound ed i))" using assms by simp
  ultimately show ?thesis by (rule finite_subset)
qed

text \<open>What one inbound reference, and then one turn of the loop, adds to the queue and to the
  rebuilt ids: the same new ids, none of them rebuilt before, none of them twice.\<close>

lemma rebuildReference_pushes:
  assumes r: "rebuildReference sn (i, path) (ed, queue) = (ed', queue')"
  shows "\<exists>new. queue' = new @ queue \<and> distinct new \<and> set new \<inter> set (rebuiltNodeIds ed) = {}
    \<and> set (rebuiltNodeIds ed') = set (rebuiltNodeIds ed) \<union> set new \<and> set new \<subseteq> {i}"
proof (cases path)
  case None
  with r have "ed' = ed" "queue' = queue" by (simp_all add: rebuildReference_def)
  then show ?thesis by simp
next
  case (Some p)
  define e1 where "e1 = setValue ed i p (node (store ed sn)) False"
  have rb: "rebuiltNodeIds e1 = rebuiltNodeIds ed" by (simp add: e1_def setValue_ids)
  show ?thesis
  proof (cases "i \<in> set (rebuiltNodeIds ed)")
    case True
    with r Some rb have "ed' = e1" "queue' = queue"
      by (simp_all add: rebuildReference_def Let_def e1_def)
    with rb show ?thesis by simp
  next
    case False
    with r Some rb have "ed' = e1\<lparr>rebuiltNodeIds := set_add i (rebuiltNodeIds e1)\<rparr>" "queue' = i # queue"
      by (simp_all add: rebuildReference_def Let_def e1_def)
    with rb False have "queue' = [i] @ queue \<and> distinct [i] \<and> set [i] \<inter> set (rebuiltNodeIds ed) = {}
      \<and> set (rebuiltNodeIds ed') = set (rebuiltNodeIds ed) \<union> set [i] \<and> set [i] \<subseteq> {i}"
      by (simp add: set_add_def)
    then show ?thesis by blast
  qed
qed

lemma rebuildReferences_pushes:
  "fold (rebuildReference sn) refs (ed, queue) = (ed', queue') \<Longrightarrow>
   \<exists>new. queue' = new @ queue \<and> distinct new \<and> set new \<inter> set (rebuiltNodeIds ed) = {}
    \<and> set (rebuiltNodeIds ed') = set (rebuiltNodeIds ed) \<union> set new \<and> set new \<subseteq> fst ` set refs"
proof (induction refs arbitrary: ed queue)
  case Nil
  then show ?case by simp
next
  case (Cons ref refs)
  obtain i path where ref: "ref = (i, path)" by (cases ref)
  obtain e1 q1 where s: "rebuildReference sn (i, path) (ed, queue) = (e1, q1)"
    by (cases "rebuildReference sn (i, path) (ed, queue)")
  from rebuildReference_pushes [OF s] obtain n1 where n1: "q1 = n1 @ queue" "distinct n1"
    "set n1 \<inter> set (rebuiltNodeIds ed) = {}" "set (rebuiltNodeIds e1) = set (rebuiltNodeIds ed) \<union> set n1"
    "set n1 \<subseteq> {i}" by blast
  from Cons.prems s ref have "fold (rebuildReference sn) refs (e1, q1) = (ed', queue')" by simp
  from Cons.IH [OF this] obtain n2 where n2: "queue' = n2 @ q1" "distinct n2"
    "set n2 \<inter> set (rebuiltNodeIds e1) = {}" "set (rebuiltNodeIds ed') = set (rebuiltNodeIds e1) \<union> set n2"
    "set n2 \<subseteq> fst ` set refs" by blast
  have "queue' = (n2 @ n1) @ queue" using n1(1) n2(1) by simp
  moreover have "distinct (n2 @ n1)" using n1(2) n2(2) n2(3) n1(4) by auto
  moreover have "set (n2 @ n1) \<inter> set (rebuiltNodeIds ed) = {}" using n1(3) n2(3) n1(4) by auto
  moreover have "set (rebuiltNodeIds ed') = set (rebuiltNodeIds ed) \<union> set (n2 @ n1)"
    using n1(4) n2(4) by auto
  moreover have "set (n2 @ n1) \<subseteq> fst ` set (ref # refs)" using n1(5) n2(5) ref by auto
  ultimately show ?case by blast
qed

lemma rebuildStep_pushes:
  assumes r: "rebuildStep x (ed, queue) = (ed', queue')"
  shows "\<exists>new. queue' = new @ queue \<and> distinct new \<and> set new \<inter> set (rebuiltNodeIds ed) = {}
    \<and> set (rebuiltNodeIds ed') = set (rebuiltNodeIds ed) \<union> set new \<and> set new \<subseteq> holders ed"
proof (cases "getSnapshot ed x")
  case None
  with r have "ed' = ed" "queue' = queue" by (simp_all add: rebuildStep_def)
  then show ?thesis by simp
next
  case (Some sn)
  show ?thesis
  proof (cases "inbound (store ed sn)")
    case None
    with Some r have "ed' = ed" "queue' = queue" by (simp_all add: rebuildStep_def)
    then show ?thesis by simp
  next
    case (Some refs)
    with \<open>getSnapshot ed x = Some sn\<close> r have "fold (rebuildReference sn) refs (ed, queue) = (ed', queue')"
      by (simp add: rebuildStep_def)
    from rebuildReferences_pushes [OF this] obtain new where n: "queue' = new @ queue" "distinct new"
      "set new \<inter> set (rebuiltNodeIds ed) = {}" "set (rebuiltNodeIds ed') = set (rebuiltNodeIds ed) \<union> set new"
      "set new \<subseteq> fst ` set refs" by blast
    have "refs_of Inbound ed x = refs" using Some \<open>getSnapshot ed x = Some sn\<close>
      by (simp add: refs_of_def refs_at_def)
    then have "fst ` set refs \<subseteq> holders ed" by (force simp: holders_def)
    with n show ?thesis by blast
  qed
qed

lemma rebuild_terminates_aux:
  assumes fin: "finite U"
  shows "editor_wf base ed \<Longrightarrow> holders ed \<subseteq> U \<Longrightarrow> distinct queue \<Longrightarrow> set queue \<subseteq> set (rebuiltNodeIds ed) \<Longrightarrow>
    \<exists>ed' pops. rebuildQueue (ed, queue) = Some ed' \<and> rebuildPops (ed, queue) = Some pops
      \<and> distinct pops \<and> set pops \<subseteq> set queue \<union> - set (rebuiltNodeIds ed)
      \<and> set (rebuiltNodeIds ed) \<subseteq> set (rebuiltNodeIds ed')
      \<and> set pops \<subseteq> set (rebuiltNodeIds ed')"
proof (induction "2 * card (U - set (rebuiltNodeIds ed)) + length queue" arbitrary: ed queue rule: less_induct)
  case less
  show ?case
  proof (cases queue)
    case Nil
    then show ?thesis by (simp add: rebuildQueue_Nil rebuildPops_Nil)
  next
    case (Cons x rest)
    obtain e1 q1 where s: "rebuildStep x (ed, rest) = (e1, q1)" by (cases "rebuildStep x (ed, rest)")
    from rebuildStep_pushes [OF s] obtain new where n: "q1 = new @ rest" "distinct new"
      "set new \<inter> set (rebuiltNodeIds ed) = {}" "set (rebuiltNodeIds e1) = set (rebuiltNodeIds ed) \<union> set new"
      "set new \<subseteq> holders ed" by blast
    from rebuildStep_republishes [OF less.prems(1), of x rest] s have rp: "republishes base ed e1" by simp
    then have wf1: "editor_wf base e1" by (rule republishes_wf)
    from rp have "holders e1 = holders ed" by (intro holders_same) (simp add: republishes_def)
    with less.prems(2) have h1: "holders e1 \<subseteq> U" by simp
    from less.prems(3,4) Cons have x: "x \<in> set (rebuiltNodeIds ed)" "x \<notin> set rest"
      and rest: "distinct rest" "set rest \<subseteq> set (rebuiltNodeIds ed)" by auto
    have d1: "distinct q1" using n(1-3) rest by auto
    have s1: "set q1 \<subseteq> set (rebuiltNodeIds e1)" using n(1,4) rest by auto
    have newU: "set new \<subseteq> U - set (rebuiltNodeIds ed)" using n(3,5) less.prems(2) by auto
    have "U - set (rebuiltNodeIds e1) = (U - set (rebuiltNodeIds ed)) - set new" using n(4) by auto
    then have "card (U - set (rebuiltNodeIds e1)) = card (U - set (rebuiltNodeIds ed)) - card (set new)"
      using newU fin by (simp add: card_Diff_subset)
    moreover have "card (set new) = length new" using n(2) by (simp add: distinct_card)
    moreover have "length new \<le> card (U - set (rebuiltNodeIds ed))"
      using newU fin n(2) by (metis card_mono distinct_card finite_Diff)
    ultimately have "2 * card (U - set (rebuiltNodeIds e1)) + length q1
        < 2 * card (U - set (rebuiltNodeIds ed)) + length queue"
      using n(1) Cons by simp
    from less.hyps [OF this wf1 h1 d1 s1] obtain ed' pops where
      r: "rebuildQueue (e1, q1) = Some ed'" "rebuildPops (e1, q1) = Some pops" "distinct pops"
        "set pops \<subseteq> set q1 \<union> - set (rebuiltNodeIds e1)"
        "set (rebuiltNodeIds e1) \<subseteq> set (rebuiltNodeIds ed')" "set pops \<subseteq> set (rebuiltNodeIds ed')"
      by blast
    have xp: "x \<notin> set pops" using r(4) n(1,3,4) x by auto
    have "rebuildQueue (ed, queue) = Some ed'" using r(1) s Cons by (simp add: rebuildQueue_Cons)
    moreover have "rebuildPops (ed, queue) = Some (x # pops)" using r(2) s Cons by (simp add: rebuildPops_Cons)
    moreover have "distinct (x # pops)" using xp r(3) by simp
    moreover have "set (x # pops) \<subseteq> set queue \<union> - set (rebuiltNodeIds ed)"
      using r(4) n(1,3,4) Cons by auto
    moreover have "set (rebuiltNodeIds ed) \<subseteq> set (rebuiltNodeIds ed')" using r(5) n(4) by auto
    moreover have "set (x # pops) \<subseteq> set (rebuiltNodeIds ed')" using r(6) x calculation(5) by auto
    ultimately show ?thesis by blast
  qed
qed


lemma set_addToSet: "set (addToSet xs items) = set xs \<union> set items"
  unfolding addToSet_def by (induction items arbitrary: xs) (auto simp: set_add_def)

lemma rebuildInboundReferences_start: "rebuildInboundReferences ed = rebuildQueue (rebuildStart ed)"
  by (simp add: rebuildInboundReferences_def rebuildStart_def)

text \<open>
  C9: on a well-formed editor over a finite parent snapshot with finitely many new nodes,
  whatever cycles the references form, the inbound-rebuild walk returns.  The ids that its
  loop pops are pairwise different, so no node is visited twice, and each of them is among
  the rebuilt ids: an id enters the rebuilt ids when it enters the queue.
\<close>

theorem rebuild_walk_terminates:
  assumes "editor_wf base ed"
    and "finite (dom (parent ed))"
    and "finite {i. newNodes ed i \<noteq> None}"
    and "distinct (editedNodeIds ed)"
  shows "\<exists>ed' pops. rebuildInboundReferences ed = Some ed'
           \<and> rebuildPops (rebuildStart ed) = Some pops
           \<and> distinct pops
           \<and> set pops \<subseteq> set (rebuiltNodeIds ed')"
proof -
  let ?e = "ed\<lparr>rebuiltNodeIds := addToSet (rebuiltNodeIds ed) (editedNodeIds ed)\<rparr>"
  have fin: "finite (holders ed)" by (rule finite_holders [OF assms(2,3)])
  have wf: "editor_wf base ?e" using assms(1) by simp
  have h: "holders ?e \<subseteq> holders ed" by (simp add: holders_def)
  have d: "distinct (rev (editedNodeIds ed))" using assms(4) by simp
  have s: "set (rev (editedNodeIds ed)) \<subseteq> set (rebuiltNodeIds ?e)" by (simp add: set_addToSet)
  from rebuild_terminates_aux [OF fin wf h d s] show ?thesis
    unfolding rebuildInboundReferences_start rebuildStart_def by blast
qed

text \<open>
  Two entities that reference each other: after the reference edits of the write, the
  rebuild walk starts from the edited ids and returns.
\<close>

theorem rebuild_walk_terminates_witness:
  "(case mergePayloadValues emptyEditor viewerQuery cyclePayload of
      None \<Rightarrow> False
    | Some (referenceEdits, ed1) \<Rightarrow>
        distinct (editedNodeIds (fst (mergeReferenceEdits ed1 referenceEdits)))
        \<and> (''2'', Some [Key ''friend'']) \<in> set (refs_of Inbound (fst (mergeReferenceEdits ed1 referenceEdits)) ''1'')
        \<and> (''1'', Some [Key ''friend'']) \<in> set (refs_of Inbound (fst (mergeReferenceEdits ed1 referenceEdits)) ''2'')
        \<and> (\<exists>ed' pops. rebuildInboundReferences (fst (mergeReferenceEdits ed1 referenceEdits)) = Some ed'
              \<and> rebuildPops (rebuildStart (fst (mergeReferenceEdits ed1 referenceEdits))) = Some pops
              \<and> distinct pops \<and> set pops \<subseteq> set (rebuiltNodeIds ed')))"
proof -
  have c: "(case mergePayloadValues emptyEditor viewerQuery cyclePayload of
      None \<Rightarrow> False
    | Some (referenceEdits, ed1) \<Rightarrow>
        distinct (editedNodeIds (fst (mergeReferenceEdits ed1 referenceEdits)))
        \<and> (''2'', Some [Key ''friend'']) \<in> set (refs_of Inbound (fst (mergeReferenceEdits ed1 referenceEdits)) ''1'')
        \<and> (''1'', Some [Key ''friend'']) \<in> set (refs_of Inbound (fst (mergeReferenceEdits ed1 referenceEdits)) ''2''))"
    by code_simp
  then obtain edits ed1 where p1: "mergePayloadValues emptyEditor viewerQuery cyclePayload = Some (edits, ed1)"
    and d: "distinct (editedNodeIds (fst (mergeReferenceEdits ed1 edits)))"
    and cyc: "(''2'', Some [Key ''friend'']) \<in> set (refs_of Inbound (fst (mergeReferenceEdits ed1 edits)) ''1'')"
      "(''1'', Some [Key ''friend'']) \<in> set (refs_of Inbound (fst (mergeReferenceEdits ed1 edits)) ''2'')"
    by (auto split: option.splits)
  obtain ed2 orph where p2: "mergeReferenceEdits ed1 edits = (ed2, orph)"
    by (cases "mergeReferenceEdits ed1 edits")
  have wf0: "editor_wf 0 emptyEditor"
    unfolding emptyEditor_def by (rule new_editor_wf) (simp add: emptySnapshot_def)
  have x1: "extends 0 emptyEditor ed1" by (rule mergePayloadValues_extends [OF p1 wf0])
  have x2: "extends 0 ed1 ed2" by (rule mergeReferenceEdits_facts(1) [OF extends_wf [OF x1] p2])
  from x1 x2 have k: "keeps 0 emptyEditor ed2" by (auto simp: extends_def intro: keeps_trans)
  then have wf2: "editor_wf 0 ed2" by (rule keeps_wf)
  from k have "parent ed2 = emptySnapshot" by (simp add: keeps_def emptyEditor_def)
  then have f1: "finite (dom (parent ed2))" by (simp add: emptySnapshot_def)
  from k have f2: "finite {i. newNodes ed2 i \<noteq> None}" by (simp add: keeps_def emptyEditor_def)
  from d p2 have d2: "distinct (editedNodeIds ed2)" by simp
  from rebuild_walk_terminates [OF wf2 f1 f2 d2] p1 p2 d cyc show ?thesis by simp
qed

end
